theory Spec2Isabelle
  imports Main "HOL-Library.Word"
begin

unbundle bit_operations_syntax

section \<open>Byte ranges, faults and results\<close>

text \<open>
  A byte is a \<^typ>\<open>char\<close>. A \<open>buffers::const_buffer\<close> is a pointer and a size; the model
  keeps the bytes the descriptor denotes, so \<open>b += n\<close> is \<open>drop n b\<close> and \<open>b.size()\<close> is
  \<open>length b\<close>.
\<close>

type_synonym buffer = string

definition buffer_size :: "buffer list \<Rightarrow> nat" where
  "buffer_size bs = length (concat bs)"

text \<open>
  The exceptions of \<open>detail/except.hpp\<close> that serializer.cpp throws. The last constructor
  marks behaviour C++ leaves undefined (a write past the end of the descriptor array).
\<close>

datatype fault = logic_error | invalid_argument | length_error | undefined_behaviour

text \<open>The error codes \<open>prepare\<close> returns as results; \<open>source_failed\<close> is the source's own code.\<close>

datatype error = expect_100_continue | need_data | source_failed nat

text \<open>
  A call either throws, leaving the serializer as it was at the throw, or returns a value
  and the serializer after the call.
\<close>

datatype ('a, 's) outcome = Throws fault 's | Returns 'a 's

primrec state_of :: "('a, 's) outcome \<Rightarrow> 's" where
  "state_of (Throws f s) = s"
| "state_of (Returns a s) = s"

primrec returned :: "('a, 's) outcome \<Rightarrow> bool" where
  "returned (Throws f s) = False"
| "returned (Returns a s) = True"


section \<open>Chunk framing\<close>

definition hexdig :: string where
  "hexdig = ''0123456789ABCDEF''"

definition crlf :: string where
  "crlf = [CHR 0x0D, CHR 0x0A]"

definition last_chunk :: string where
  "last_chunk = CHR ''0'' # crlf @ crlf"

text \<open>
  Modelled from the spec: the constants \<open>chunk_header_len_\<close>, \<open>crlf_len_\<close>,
  \<open>last_chunk_len_\<close> and \<open>chunked_overhead_\<close> are declared in serializer.hpp, which is not
  among the sources. The specification gives them: "\<open>chunk_header_len = 18\<close>,
  \<open>crlf_len = 2\<close>, \<open>last_chunk_len = 5\<close>, \<open>chunked_overhead = 25\<close>".
\<close>

definition chunk_header_len :: nat where "chunk_header_len = 18"
definition crlf_len :: nat where "crlf_len = 2"
definition last_chunk_len :: nat where "last_chunk_len = 5"
definition chunked_overhead :: nat where
  "chunked_overhead = chunk_header_len + crlf_len + last_chunk_len"

text \<open>
  The loop of \<open>write_chunk_header\<close>: \<open>for(i = 16; i--;) { *--p = hexdig[size & 0xf]; size >>= 4; }\<close>.
  Each round puts one digit in front of those already written. \<open>std::size_t\<close> has 64 bits.
\<close>

fun write_hex :: "nat \<Rightarrow> 64 word \<Rightarrow> string \<Rightarrow> string" where
  "write_hex 0 sz acc = acc"
| "write_hex (Suc i) sz acc =
     write_hex i (drop_bit 4 sz) (hexdig ! unat (sz AND 0xf) # acc)"

definition write_chunk_header :: "64 word \<Rightarrow> string" where
  "write_chunk_header sz = write_hex 16 sz [] @ crlf"



section \<open>The descriptor array\<close>

text \<open>
  \<open>consume_buffers\<close> of serializer.cpp, on the \<open>n\<close> descriptors that start at \<open>p\<close>: the
  descriptors left, or the precondition fault when bytes remain after the last one.
\<close>

fun consume_buffers :: "buffer list \<Rightarrow> nat \<Rightarrow> fault + buffer list" where
  "consume_buffers [] bytes = (if bytes > 0 then Inl invalid_argument else Inr [])"
| "consume_buffers (b # p) bytes =
     (if bytes < length b then Inr (drop bytes b # p)
      else consume_buffers p (bytes - length b))"

text \<open>
  Modelled from the spec: \<open>detail::array_of_const_buffers\<close> (the type of \<open>out_\<close> and \<open>buf_\<close>) is
  declared in a header that is not among the sources. The specification says of it: "an
  ordered sequence of byte-range descriptors", which "supports \<open>consume(n)\<close>: advance past the
  first n bytes across descriptors, discarding fully-consumed ones". \<open>arr\<close> is the whole
  allocated array and \<open>pos\<close> the number of descriptors discarded from its front, so that the
  pointer \<open>data()\<close> is \<open>&arr[pos]\<close> and \<open>size()\<close> is \<open>length arr - pos\<close>. A discarded
  descriptor keeps the value it had. The walk is that of \<open>consume_buffers\<close> above, and it
  stops once the \<open>n\<close> bytes are passed: after the header alone is consumed \<open>data()\<close> is the
  slot that follows it, where \<open>prepare\<close> puts the ranges of \<open>tmp0_\<close> (it writes them to
  \<open>out_[0]\<close> and \<open>out_[1]\<close> when \<open>out_.data() != hp_\<close>), also when those slots are still
  empty, as they are when the header of an expect-continue message has just been sent.
  Consuming more than the array holds empties it. \<open>make_array(n)\<close> carves an array of
  \<open>n\<close> empty descriptors from the workspace.
\<close>

record array_of_const_buffers =
  arr :: "buffer list"
  pos :: nat

fun advance :: "buffer list \<Rightarrow> nat \<Rightarrow> buffer list" where
  "advance [] n = []"
| "advance (b # p) n =
     (if n < length b then drop n b # p
      else if n - length b = 0 then p
      else advance p (n - length b))"

definition make_array :: "nat \<Rightarrow> array_of_const_buffers" where
  "make_array n = \<lparr>arr = replicate n [], pos = 0\<rparr>"

definition aob_size :: "array_of_const_buffers \<Rightarrow> nat" where
  "aob_size a = length (arr a) - pos a"

definition aob_empty :: "array_of_const_buffers \<Rightarrow> bool" where
  "aob_empty a = (aob_size a = 0)"

definition aob_view :: "array_of_const_buffers \<Rightarrow> buffer list" where
  "aob_view a = drop (pos a) (arr a)"

definition aob_consume :: "array_of_const_buffers \<Rightarrow> nat \<Rightarrow> array_of_const_buffers" where
  "aob_consume a n =
     (let rest = advance (aob_view a) n;
          p = length (arr a) - length rest
      in \<lparr>arr = take p (arr a) @ rest, pos = p\<rparr>)"

text \<open>\<open>a[i] = b\<close>; nothing when the slot is past the end of the array.\<close>

definition aob_set :: "array_of_const_buffers \<Rightarrow> nat \<Rightarrow> buffer \<Rightarrow> array_of_const_buffers option" where
  "aob_set a i b =
     (if pos a + i < length (arr a) then Some (a\<lparr>arr := (arr a)[pos a + i := b]\<rparr>) else None)"

text \<open>\<open>copy(&a[i], src, n)\<close> of serializer.cpp: \<open>while(n--) *dest++ = *src++\<close>.\<close>

fun copy :: "buffer list \<Rightarrow> nat \<Rightarrow> buffer list \<Rightarrow> buffer list" where
  "copy dest i [] = dest"
| "copy dest i (b # bs) = copy (dest[i := b]) (Suc i) bs"

section \<open>The circular buffer\<close>

text \<open>
  \<open>buffers::circular_buffer\<close> of Boost.Buffers, the library the serializer is built on:
  \<open>cb_cap\<close> is the size of the storage, \<open>in_pos\<close> the offset of the first readable byte and
  \<open>in_data\<close> the readable bytes (\<open>in_len_\<close> is their number). \<open>capacity()\<close> is the free
  space. \<open>prepare(n)\<close> throws a length error when \<open>n\<close> exceeds it and otherwise hands out
  the free space that follows the readable bytes, in two parts when it wraps around the end
  of the storage; \<open>cb_prepare\<close> gives the sizes of the two parts. \<open>commit\<close> makes bytes
  written there readable. \<open>consume\<close> drops bytes from the front, and starts again at offset
  0 when nothing readable is left.
\<close>

record circular_buffer =
  cb_cap :: nat
  in_pos :: nat
  in_data :: string

definition cb_new :: "nat \<Rightarrow> circular_buffer" where
  "cb_new n = \<lparr>cb_cap = n, in_pos = 0, in_data = []\<rparr>"

definition cb_size :: "circular_buffer \<Rightarrow> nat" where
  "cb_size cb = length (in_data cb)"

definition cb_capacity :: "circular_buffer \<Rightarrow> nat" where
  "cb_capacity cb = cb_cap cb - cb_size cb"

definition cb_data :: "circular_buffer \<Rightarrow> buffer \<times> buffer" where
  "cb_data cb =
     (if in_pos cb + cb_size cb \<le> cb_cap cb then (in_data cb, [])
      else (take (cb_cap cb - in_pos cb) (in_data cb),
            drop (cb_cap cb - in_pos cb) (in_data cb)))"

definition cb_prepare :: "circular_buffer \<Rightarrow> nat \<Rightarrow> (nat \<times> nat) option" where
  "cb_prepare cb n =
     (if n > cb_capacity cb then None
      else let p = (in_pos cb + cb_size cb) mod cb_cap cb
           in if p + n \<le> cb_cap cb then Some (n, 0)
              else Some (cb_cap cb - p, n - (cb_cap cb - p)))"

definition cb_commit :: "circular_buffer \<Rightarrow> string \<Rightarrow> circular_buffer" where
  "cb_commit cb bs = cb\<lparr>in_data := in_data cb @ bs\<rparr>"

definition cb_consume :: "circular_buffer \<Rightarrow> nat \<Rightarrow> circular_buffer" where
  "cb_consume cb n =
     (if n < cb_size cb
      then cb\<lparr>in_pos := (in_pos cb + n) mod cb_cap cb, in_data := drop n (in_data cb)\<rparr>
      else cb\<lparr>in_pos := 0, in_data := []\<rparr>)"

text \<open>
  The idiom \<open>buf = *mbs.begin(); if(buf.size() == 0) buf = *++mbs.begin();\<close>: the size of the
  first part that is not empty.
\<close>

definition first_part :: "nat \<times> nat \<Rightarrow> nat" where
  "first_part mbs = (if fst mbs = 0 then snd mbs else fst mbs)"

text \<open>\<open>write_chunk_close\<close> and \<open>write_last_chunk\<close>: \<open>db.commit(buffer_copy(db.prepare(k), lit))\<close>.\<close>

definition write_chunk_close :: "circular_buffer \<Rightarrow> circular_buffer option" where
  "write_chunk_close db =
     (case cb_prepare db 2 of None \<Rightarrow> None | Some _ \<Rightarrow> Some (cb_commit db crlf))"

definition write_last_chunk :: "circular_buffer \<Rightarrow> circular_buffer option" where
  "write_last_chunk db =
     (case cb_prepare db 5 of None \<Rightarrow> None | Some _ \<Rightarrow> Some (cb_commit db last_chunk))"

section \<open>The collaborators: message, source and filter\<close>

text \<open>
  What the serializer reads of a message: the header octets (\<open>ph_->cbuf\<close>, \<open>ph_->size\<close>)
  and three fields of its metadata, \<open>md.expect.is_100_continue\<close>,
  \<open>md.transfer_encoding.is_chunked\<close> and \<open>md.transfer_encoding.encoding\<close>. The types are
  declared in headers that are not among the sources; of the codings the serializer
  distinguishes \<open>identity\<close> and \<open>gzip\<close> from the rest.
\<close>

datatype encoding = identity | deflate | gzip

record message =
  cbuf :: string
  expect_is_100_continue :: bool
  te_is_chunked :: bool
  te_encoding :: encoding

text \<open>
  A body source is an object with one operation, \<open>read(dest)\<close>, that writes into \<open>dest\<close> and
  returns \<open>{bytes, finished, ec}\<close>. It is a state of any type \<open>'r\<close> and a function on it;
  \<open>rd_bytes\<close> are the bytes written (\<open>bytes\<close> is their number). The source cannot write
  more than \<open>dest\<close> holds.
\<close>

record read_results =
  rd_bytes :: string
  rd_finished :: bool
  rd_ec :: "nat option"

type_synonym 'r source = "'r \<Rightarrow> nat \<Rightarrow> read_results \<times> 'r"

definition read :: "'r source \<Rightarrow> 'r \<Rightarrow> nat \<Rightarrow> read_results \<times> 'r" where
  "read rd r n =
     (let rv = fst (rd r n) in (rv\<lparr>rd_bytes := take n (rd_bytes rv)\<rparr>, snd (rd r n)))"

text \<open>
  A filter likewise: \<open>on_process(out, in, more)\<close> reads from \<open>in\<close>, writes into \<open>out\<close> and
  returns \<open>{in_bytes, out_bytes, finished}\<close>; \<open>out_written\<close> are the bytes written. It
  cannot read more than \<open>in\<close> holds nor write more than \<open>out\<close> holds.
\<close>

record filter_results =
  in_bytes :: nat
  out_written :: string
  finished :: bool

type_synonym 'f filter = "'f \<Rightarrow> nat \<Rightarrow> string \<Rightarrow> bool \<Rightarrow> filter_results \<times> 'f"

definition on_process :: "'f filter \<Rightarrow> 'f \<Rightarrow> nat \<Rightarrow> string \<Rightarrow> bool \<Rightarrow> filter_results \<times> 'f" where
  "on_process flt f n inp more_in =
     (let rs = fst (flt f n inp more_in)
      in (rs\<lparr>in_bytes := min (in_bytes rs) (length inp),
              out_written := take n (out_written rs)\<rparr>,
          snd (flt f n inp more_in)))"

section \<open>The serializer\<close>

text \<open>The enumeration \<open>style\<close> of the specification: none, empty, buffers, source, stream.\<close>

datatype style = style_none | style_empty | style_buffers | style_source | style_stream

text \<open>
  The members of \<open>serializer\<close>; the fields carry their names without the trailing
  underscore, and \<open>more_\<close> is \<open>more_flag\<close>. Of the workspace \<open>ws_\<close> the model keeps its
  size when cleared (\<open>ws_total\<close>) and what \<open>ws_.size()\<close> returns (\<open>ws_size\<close>); the bytes
  that the descriptor arrays and the filter object take from it are not charged. The
  pointer \<open>hp_\<close> is the address of the first slot of the array made by the last \<open>start\<close>
  function, so the test \<open>out_.data() == hp_\<close> reads \<open>pos (out s) = 0\<close>, and \<open>*hp_\<close> is the
  first element of \<open>arr (out s)\<close>, also after that descriptor has been discarded.
\<close>

record ('f, 'r) serializer =
  ws_total :: nat
  ws_size :: nat
  buf :: array_of_const_buffers
  src :: 'r
  tmp0 :: circular_buffer
  tmp1 :: circular_buffer
  out :: array_of_const_buffers
  st :: style
  more_flag :: bool
  is_done :: bool
  is_chunked :: bool
  is_expect_continue :: bool
  is_compressed :: bool
  filter_done :: bool
  deflate_filter :: 'f

definition hp :: "('f, 'r) serializer \<Rightarrow> buffer" where
  "hp s = (case arr (out s) of [] \<Rightarrow> [] | h # _ \<Rightarrow> h)"

definition at_header :: "('f, 'r) serializer \<Rightarrow> bool" where
  "at_header s = (pos (out s) = 0)"

definition set_hp :: "buffer \<Rightarrow> ('f, 'r) serializer \<Rightarrow> ('f, 'r) serializer" where
  "set_hp h s = s\<lparr>out := (out s)\<lparr>arr := (arr (out s))[0 := h]\<rparr>\<rparr>"

definition reset :: "('f, 'r) serializer \<Rightarrow> ('f, 'r) serializer" where
  "reset s = s\<lparr>ws_size := ws_total s, more_flag := False, is_done := False,
     is_chunked := False, is_expect_continue := False, is_compressed := False,
     filter_done := False\<rparr>"

text \<open>
  \<open>serializer(ctx, buffer_size)\<close>: a workspace of that size, no filter, and the flags as
  \<open>reset\<close> leaves them. The source and the filter are of type \<^typ>\<open>unit\<close> here; this
  serializer is the start of the concrete runs below.
\<close>

definition construct :: "nat \<Rightarrow> (unit, unit) serializer" where
  "construct n = \<lparr>ws_total = n, ws_size = n, buf = make_array 0, src = (),
     tmp0 = cb_new 0, tmp1 = cb_new 0, out = make_array 0, st = style_none,
     more_flag = False, is_done = False, is_chunked = False, is_expect_continue = False,
     is_compressed = False, filter_done = False, deflate_filter = ()\<rparr>"

subsection \<open>prepare\<close>

text \<open>
  \<open>n = 0; if(out_.data() == hp_) ++n; for(b : tmp0_.data()) out_[n++] = b;\<close> and the view
  \<open>(out_.data(), out_.size())\<close> returned after it.
\<close>

definition fill_out :: "('f, 'r) serializer \<Rightarrow> ('f, 'r) serializer option" where
  "fill_out s =
     (let n = (if at_header s then 1 else 0)
      in case aob_set (out s) n (fst (cb_data (tmp0 s))) of
           None \<Rightarrow> None
         | Some o1 \<Rightarrow>
             (case aob_set o1 (n + 1) (snd (cb_data (tmp0 s))) of
                None \<Rightarrow> None
              | Some o2 \<Rightarrow> Some (s\<lparr>out := o2\<rparr>)))"

definition on_end :: "('f, 'r) serializer \<Rightarrow> (error + buffer list, ('f, 'r) serializer) outcome" where
  "on_end s =
     (case fill_out s of
        None \<Rightarrow> Throws undefined_behaviour s
      | Some s' \<Rightarrow> Returns (Inr (aob_view (out s'))) s')"

text \<open>The serializer after those two assignments, when both slots exist.\<close>

definition filled :: "('f, 'r) serializer \<Rightarrow> ('f, 'r) serializer" where
  "filled s =
     (let n = pos (out s) + (if at_header s then 1 else 0)
      in s\<lparr>out := (out s)\<lparr>arr := (arr (out s))[n := fst (cb_data (tmp0 s)),
                                              Suc n := snd (cb_data (tmp0 s))]\<rparr>\<rparr>)"

text \<open>The lambdas \<open>get_input\<close>, \<open>get_output\<close> and \<open>consume\<close> of the compressed branch.\<close>

definition get_input :: "('f, 'r) serializer \<Rightarrow> buffer" where
  "get_input s =
     (if st s = style_buffers then
        (if buffer_size (aob_view (buf s)) = 0 then [] else hd (aob_view (buf s)))
      else if cb_size (tmp1 s) = 0 then []
      else if fst (cb_data (tmp1 s)) = [] then snd (cb_data (tmp1 s))
      else fst (cb_data (tmp1 s)))"

definition get_output :: "('f, 'r) serializer \<Rightarrow> nat" where
  "get_output s =
     (case cb_prepare (tmp0 s) (cb_capacity (tmp0 s)) of
        None \<Rightarrow> 0
      | Some mbs \<Rightarrow>
          (if is_chunked s then
             (if first_part mbs < crlf_len + last_chunk_len + 1 then 0
              else first_part mbs - crlf_len - last_chunk_len)
           else first_part mbs))"

definition consume_input :: "nat \<Rightarrow> ('f, 'r) serializer \<Rightarrow> ('f, 'r) serializer" where
  "consume_input n s =
     (if st s = style_buffers then
        (let b = aob_consume (buf s) n
         in if buffer_size (aob_view b) = 0 then s\<lparr>buf := b, more_flag := False\<rparr>
            else s\<lparr>buf := b\<rparr>)
      else s\<lparr>tmp1 := cb_consume (tmp1 s) n\<rparr>)"

text \<open>
  One round of the \<open>for(;;)\<close> loop after the test of \<open>out.size()\<close>, up to and including
  \<open>consume(results.in_bytes)\<close>: the filter's results, and the serializer.
\<close>

definition filter_step ::
  "'f filter \<Rightarrow> ('f, 'r) serializer \<Rightarrow> filter_results \<times> ('f, 'r) serializer" where
  "filter_step flt s =
     (let results = fst (on_process flt (deflate_filter s) (get_output s) (get_input s) (more_flag s));
          s1 = s\<lparr>deflate_filter :=
                    snd (on_process flt (deflate_filter s) (get_output s) (get_input s) (more_flag s))\<rparr>;
          s2 = (if finished results then s1\<lparr>filter_done := True\<rparr> else s1)
      in (results, consume_input (in_bytes results) s2))"

text \<open>\<open>tmp0_.commit(results.out_bytes)\<close> after a round.\<close>

definition commit_step ::
  "filter_results \<times> ('f, 'r) serializer \<Rightarrow> ('f, 'r) serializer" where
  "commit_step rs = (snd rs)\<lparr>tmp0 := cb_commit (tmp0 (snd rs)) (out_written (fst rs))\<rparr>"

function filter_loop ::
  "'f filter \<Rightarrow> ('f, 'r) serializer \<Rightarrow> nat \<Rightarrow> (nat, ('f, 'r) serializer) outcome" where
  "filter_loop flt s num_written =
     (if get_output s = 0 then
        (if cb_size (tmp0 s) = 0 then Throws logic_error s else Returns num_written s)
      else if out_written (fst (filter_step flt s)) = []
      then Returns num_written (snd (filter_step flt s))
      else filter_loop flt (commit_step (filter_step flt s))
             (num_written + length (out_written (fst (filter_step flt s)))))"
  by pat_completeness auto

lemma get_output_le: "get_output s \<le> cb_capacity (tmp0 s)"
  by (auto simp: get_output_def cb_prepare_def first_part_def Let_def split: option.splits if_splits)

lemma filter_step_written: "length (out_written (fst (filter_step flt s))) \<le> get_output s"
  by (simp add: filter_step_def on_process_def Let_def)

lemma filter_step_tmp0: "tmp0 (snd (filter_step flt s)) = tmp0 s"
  by (simp add: filter_step_def consume_input_def Let_def)

lemma commit_step_less:
  assumes "out_written (fst (filter_step flt s)) \<noteq> []"
  shows "cb_capacity (tmp0 (commit_step (filter_step flt s))) < cb_capacity (tmp0 s)"
proof -
  have "length (out_written (fst (filter_step flt s))) \<le> cb_capacity (tmp0 s)"
    using filter_step_written [of flt s] get_output_le [of s] by simp
  with assms show ?thesis
    by (cases "out_written (fst (filter_step flt s))")
       (auto simp: commit_step_def filter_step_tmp0 cb_commit_def cb_capacity_def cb_size_def)
qed

termination filter_loop
  by (relation "measure (\<lambda>(flt, s, n). cb_capacity (tmp0 s))") (simp_all add: commit_step_less)

declare filter_loop.simps [simp del]

text \<open>
  What the filter returned in the rounds of one run of the loop, in order: the record of
  "the compressed bytes the filter produced during that call" and of "the filter reported
  finished".
\<close>

function filter_trace :: "'f filter \<Rightarrow> ('f, 'r) serializer \<Rightarrow> filter_results list" where
  "filter_trace flt s =
     (if get_output s = 0 then []
      else if out_written (fst (filter_step flt s)) = [] then [fst (filter_step flt s)]
      else fst (filter_step flt s) # filter_trace flt (commit_step (filter_step flt s)))"
  by pat_completeness auto

termination filter_trace
  by (relation "measure (\<lambda>(flt, s). cb_capacity (tmp0 s))") (simp_all add: commit_step_less)

declare filter_trace.simps [simp del]

text \<open>
  The compressed branch of \<open>prepare\<close>, in the order of the source. A \<open>BOOST_ASSERT\<close> is
  not a branch: it is compiled out of a release build.
\<close>

definition read_zbuf :: "'r source \<Rightarrow> ('f, 'r) serializer \<Rightarrow> ('f, 'r) serializer" where
  "read_zbuf rd s =
     (let results = fst (read rd (src s) (cb_capacity (tmp1 s)))
      in s\<lparr>src := snd (read rd (src s) (cb_capacity (tmp1 s))),
            more_flag := \<not> rd_finished results,
            tmp1 := cb_commit (tmp1 s) (rd_bytes results)\<rparr>)"

text \<open>
  \<open>tmp0_.prepare(chunk_header_len_)\<close>, the test of the first part, \<open>memset\<close> and \<open>commit\<close>.
  The header's place is the offset in the readable bytes where it starts.
\<close>

definition reserve_chunk_header ::
  "('f, 'r) serializer \<Rightarrow> (nat, ('f, 'r) serializer) outcome" where
  "reserve_chunk_header s =
     (case cb_prepare (tmp0 s) chunk_header_len of
        None \<Rightarrow> Throws length_error s
      | Some mbs \<Rightarrow>
          if first_part mbs < chunk_header_len then Throws logic_error s
          else Returns (cb_size (tmp0 s))
                 (s\<lparr>tmp0 := cb_commit (tmp0 s) (replicate chunk_header_len (CHR 0x00))\<rparr>))"

definition overwrite :: "string \<Rightarrow> nat \<Rightarrow> string \<Rightarrow> string" where
  "overwrite d i bs = take i d @ bs @ drop (i + length bs) d"

text \<open>
  After the loop, when chunked: the header is written where it was reserved, then CRLF, then
  the last chunk if \<open>filter_done_\<close>.
\<close>

definition finish_chunk ::
  "nat \<Rightarrow> nat \<Rightarrow> ('f, 'r) serializer \<Rightarrow> (unit, ('f, 'r) serializer) outcome" where
  "finish_chunk chunk_header num_written s =
     (let s1 = s\<lparr>tmp0 := (tmp0 s)\<lparr>in_data :=
                 overwrite (in_data (tmp0 s)) chunk_header
                   (write_chunk_header (word_of_nat num_written))\<rparr>\<rparr>
      in case write_chunk_close (tmp0 s1) of
           None \<Rightarrow> Throws length_error s1
         | Some t1 \<Rightarrow>
             if filter_done s1 then
               (case write_last_chunk t1 of
                  None \<Rightarrow> Throws length_error (s1\<lparr>tmp0 := t1\<rparr>)
                | Some t2 \<Rightarrow> Returns () (s1\<lparr>tmp0 := t2\<rparr>))
             else Returns () (s1\<lparr>tmp0 := t1\<rparr>))"

definition prepare_compressed ::
  "'f filter \<Rightarrow> 'r source \<Rightarrow> ('f, 'r) serializer \<Rightarrow>
     (error + buffer list, ('f, 'r) serializer) outcome" where
  "prepare_compressed flt rd s =
     (if cb_size (tmp0 s) > 0 then Throws logic_error s
      else if cb_capacity (tmp0 s) < chunked_overhead + 6 + 1 then Throws length_error s
      else
        (let s1 = (if st s = style_source then read_zbuf rd s else s)
         in if is_chunked s1 then
              (case reserve_chunk_header s1 of
                 Throws f s2 \<Rightarrow> Throws f s2
               | Returns chunk_header s2 \<Rightarrow>
                   (case filter_loop flt s2 0 of
                      Throws f s3 \<Rightarrow> Throws f s3
                    | Returns num_written s3 \<Rightarrow>
                        (case finish_chunk chunk_header num_written s3 of
                           Throws f s4 \<Rightarrow> Throws f s4
                         | Returns _ s4 \<Rightarrow> on_end s4)))
            else
              (case filter_loop flt s1 0 of
                 Throws f s3 \<Rightarrow> Throws f s3
               | Returns num_written s3 \<Rightarrow> on_end s3)))"

text \<open>The branch of \<open>style::source\<close>: the refill of \<open>tmp0_\<close> when \<open>more_\<close>, then the view.\<close>

definition source_refill ::
  "'r source \<Rightarrow> ('f, 'r) serializer \<Rightarrow> (error option, ('f, 'r) serializer) outcome" where
  "source_refill rd s =
     (if \<not> is_chunked s then
        (let rv = fst (read rd (src s) (cb_capacity (tmp0 s)));
             s1 = s\<lparr>src := snd (read rd (src s) (cb_capacity (tmp0 s))),
                     tmp0 := cb_commit (tmp0 s) (rd_bytes rv)\<rparr>
         in case rd_ec rv of
              Some e \<Rightarrow> Returns (Some (source_failed e)) s1
            | None \<Rightarrow> Returns None (s1\<lparr>more_flag := \<not> rd_finished rv\<rparr>))
      else if cb_capacity (tmp0 s) > chunked_overhead then
        (let n = cb_capacity (tmp0 s) - 2 - 5 - 18;
             rv = fst (read rd (src s) n);
             s1 = s\<lparr>src := snd (read rd (src s) n)\<rparr>
         in case rd_ec rv of
              Some e \<Rightarrow> Returns (Some (source_failed e)) s1
            | None \<Rightarrow>
                (case (if rd_bytes rv \<noteq> []
                       then write_chunk_close
                              (cb_commit (tmp0 s1)
                                 (write_chunk_header (word_of_nat (length (rd_bytes rv))) @ rd_bytes rv))
                       else Some (tmp0 s1)) of
                   None \<Rightarrow>
                     Throws length_error
                       (s1\<lparr>tmp0 := cb_commit (tmp0 s1)
                          (write_chunk_header (word_of_nat (length (rd_bytes rv))) @ rd_bytes rv)\<rparr>)
                 | Some t1 \<Rightarrow>
                     if rd_finished rv then
                       (case write_last_chunk t1 of
                          None \<Rightarrow> Throws length_error (s1\<lparr>tmp0 := t1\<rparr>)
                        | Some t2 \<Rightarrow> Returns None (s1\<lparr>tmp0 := t2, more_flag := False\<rparr>))
                     else Returns None (s1\<lparr>tmp0 := t1\<rparr>)))
      else Returns None s)"

definition prepare_source ::
  "'r source \<Rightarrow> ('f, 'r) serializer \<Rightarrow> (error + buffer list, ('f, 'r) serializer) outcome" where
  "prepare_source rd s =
     (if more_flag s then
        (case source_refill rd s of
           Throws f s1 \<Rightarrow> Throws f s1
         | Returns (Some ec) s1 \<Rightarrow> Returns (Inl ec) s1
         | Returns None s1 \<Rightarrow> on_end s1)
      else on_end s)"

definition prepare_stream ::
  "('f, 'r) serializer \<Rightarrow> (error + buffer list, ('f, 'r) serializer) outcome" where
  "prepare_stream s =
     (if cb_size (tmp0 s) = 0 \<and> more_flag s then Returns (Inl need_data) s
      else on_end s)"

text \<open>\<open>prepare\<close> past the precondition and the expect-continue gate.\<close>

definition prepare_body ::
  "'f filter \<Rightarrow> 'r source \<Rightarrow> ('f, 'r) serializer \<Rightarrow>
     (error + buffer list, ('f, 'r) serializer) outcome" where
  "prepare_body flt rd s =
     (if is_compressed s then prepare_compressed flt rd s
      else if st s = style_empty then Returns (Inr (aob_view (out s))) s
      else if st s = style_buffers then Returns (Inr (aob_view (out s))) s
      else if st s = style_source then prepare_source rd s
      else if st s = style_stream then prepare_stream s
      else Throws logic_error s)"

definition prepare ::
  "'f filter \<Rightarrow> 'r source \<Rightarrow> ('f, 'r) serializer \<Rightarrow>
     (error + buffer list, ('f, 'r) serializer) outcome" where
  "prepare flt rd s =
     (if is_done s then Throws logic_error s
      else if is_expect_continue s then
        (if at_header s then Returns (Inr [hp s]) s
         else Returns (Inl expect_100_continue) (s\<lparr>is_expect_continue := False\<rparr>))
      else prepare_body flt rd s)"

subsection \<open>consume\<close>

definition out_consume :: "nat \<Rightarrow> ('f, 'r) serializer \<Rightarrow> ('f, 'r) serializer" where
  "out_consume n s = s\<lparr>out := aob_consume (out s) n\<rparr>"

text \<open>The \<open>switch(st_)\<close> of \<open>consume\<close>.\<close>

definition consume_style :: "nat \<Rightarrow> ('f, 'r) serializer \<Rightarrow> ('f, 'r) serializer" where
  "consume_style n s =
     (if st s = style_buffers then
        (if is_compressed s then
           (let s1 = s\<lparr>tmp0 := cb_consume (tmp0 s) n\<rparr>
            in if cb_size (tmp0 s1) = 0 \<and> filter_done s1 then s1\<lparr>is_done := True\<rparr> else s1)
         else
           (let s1 = out_consume n s
            in if aob_empty (out s1) then s1\<lparr>is_done := True\<rparr> else s1))
      else if st s = style_source \<or> st s = style_stream then
        (let s1 = s\<lparr>tmp0 := cb_consume (tmp0 s) n\<rparr>;
             s2 = (if \<not> is_compressed s1 \<and> cb_size (tmp0 s1) = 0 \<and> \<not> more_flag s1
                   then s1\<lparr>is_done := True\<rparr> else s1)
         in if is_compressed s2 \<and> cb_size (tmp0 s2) = 0 \<and> filter_done s2
            then s2\<lparr>is_done := True\<rparr> else s2)
      else
        (let s1 = out_consume n s
         in if aob_empty (out s1) then s1\<lparr>is_done := True\<rparr> else s1))"

definition consume :: "nat \<Rightarrow> ('f, 'r) serializer \<Rightarrow> (unit, ('f, 'r) serializer) outcome" where
  "consume n s =
     (if is_done s then Throws logic_error s
      else if is_expect_continue s then
        (if n > length (hp s) then Throws invalid_argument s
         else Returns () (out_consume n s))
      else if at_header s then
        (if n < length (hp s) then Returns () (out_consume n s)
         else Returns () (consume_style (n - length (hp s)) (out_consume (length (hp s)) s)))
      else Returns () (consume_style n s))"

subsection \<open>start\<close>

text \<open>
  \<open>a[i] = b\<close> at a slot that exists: the \<open>start\<close> functions write to arrays they have just
  made, of a size that holds the slot.
\<close>

definition aob_put :: "array_of_const_buffers \<Rightarrow> nat \<Rightarrow> buffer \<Rightarrow> array_of_const_buffers" where
  "aob_put a i b = a\<lparr>arr := (arr a)[pos a + i := b]\<rparr>"

text \<open>
  \<open>start_init\<close>. The filter comes from the service of the context: \<open>mk True\<close> stands for
  \<open>make_gzip_filter(ws_)\<close> and \<open>mk False\<close> for \<open>make_deflate_filter(ws_)\<close>.
\<close>

definition start_init ::
  "(bool \<Rightarrow> 'f) \<Rightarrow> message \<Rightarrow> ('f, 'r) serializer \<Rightarrow> ('f, 'r) serializer" where
  "start_init mk m s =
     (let s1 = (reset s)\<lparr>is_done := False,
                          is_expect_continue := expect_is_100_continue m,
                          is_chunked := te_is_chunked m\<rparr>
      in if te_encoding m \<noteq> identity
         then s1\<lparr>is_compressed := True, deflate_filter := mk (te_encoding m = gzip)\<rparr>
         else s1)"

definition start_empty ::
  "(bool \<Rightarrow> 'f) \<Rightarrow> message \<Rightarrow> ('f, 'r) serializer \<Rightarrow> (unit, ('f, 'r) serializer) outcome" where
  "start_empty mk m s =
     (let s1 = (start_init mk m s)\<lparr>st := style_empty\<rparr>
      in if \<not> is_chunked s1 then Returns () (set_hp (cbuf m) (s1\<lparr>out := make_array 1\<rparr>))
         else
           (let s2 = s1\<lparr>out := make_array (1 + 1)\<rparr>
            in if ws_size s2 < 5 then Throws length_error s2
               else Returns () (set_hp (cbuf m) (s2\<lparr>out := aob_put (out s2) 1 last_chunk\<rparr>))))"

text \<open>
  \<open>start_buffers(m)\<close> as serializer.cpp has it: it reads \<open>buf_\<close> and the flags as it finds
  them.
\<close>

definition start_buffers ::
  "message \<Rightarrow> ('f, 'r) serializer \<Rightarrow> (unit, ('f, 'r) serializer) outcome" where
  "start_buffers m s =
     (let s0 = s\<lparr>st := style_buffers\<rparr>
      in if is_compressed s0 then
           Returns ()
             ((set_hp (cbuf m) (s0\<lparr>out := make_array (1 + 2)\<rparr>))
                \<lparr>tmp0 := cb_new (ws_size s0), more_flag := True\<rparr>)
         else if \<not> is_chunked s0 then
           (let a = make_array (1 + aob_size (buf s0))
            in Returns ()
                 (set_hp (cbuf m) (s0\<lparr>out := a\<lparr>arr := copy (arr a) 1 (aob_view (buf s0))\<rparr>\<rparr>)))
         else
           (let a = make_array (1 + 1 + aob_size (buf s0) + 1);
                s1 = s0\<lparr>out := a\<lparr>arr := copy (arr a) 2 (aob_view (buf s0))\<rparr>\<rparr>
            in if ws_size s1 < 18 + 7 then Throws length_error s1
               else
                 Returns ()
                   (set_hp (cbuf m)
                      (s1\<lparr>out :=
                           aob_put
                             (aob_put (out s1) 1
                                (write_chunk_header (word_of_nat (buffer_size (aob_view (buf s0))))))
                             (aob_size (out s1) - 1) (crlf @ last_chunk)\<rparr>))))"

text \<open>\<open>ws_.reserve_front(n)\<close> and \<open>tmp1_ = circular_buffer(p, n)\<close>, when compressed.\<close>

definition reserve_tmp1 :: "('f, 'r) serializer \<Rightarrow> ('f, 'r) serializer" where
  "reserve_tmp1 s =
     (if is_compressed s
      then s\<lparr>tmp1 := cb_new (ws_size s div 2), ws_size := ws_size s - ws_size s div 2\<rparr>
      else s)"

text \<open>The common end of \<open>start_source\<close> and \<open>start_stream\<close>.\<close>

definition start_tmp0 :: "message \<Rightarrow> ('f, 'r) serializer \<Rightarrow> (unit, ('f, 'r) serializer) outcome" where
  "start_tmp0 m s =
     (let s1 = s\<lparr>tmp0 := cb_new (ws_size s)\<rparr>
      in if cb_capacity (tmp0 s1) < 18 + 1 + 2 + 5 then Throws length_error s1
         else Returns () ((set_hp (cbuf m) s1)\<lparr>more_flag := True\<rparr>))"

definition start_source ::
  "message \<Rightarrow> 'r \<Rightarrow> ('f, 'r) serializer \<Rightarrow> (unit, ('f, 'r) serializer) outcome" where
  "start_source m r s =
     start_tmp0 m (reserve_tmp1 (s\<lparr>st := style_source, src := r, out := make_array (1 + 2)\<rparr>))"

definition start_stream ::
  "(bool \<Rightarrow> 'f) \<Rightarrow> message \<Rightarrow> ('f, 'r) serializer \<Rightarrow> (unit, ('f, 'r) serializer) outcome" where
  "start_stream mk m s =
     start_tmp0 m
       (reserve_tmp1 ((start_init mk m s)\<lparr>st := style_stream, out := make_array (1 + 2)\<rparr>))"

subsection \<open>The stream handle\<close>

definition stream_capacity :: "('f, 'r) serializer \<Rightarrow> nat" where
  "stream_capacity s = cb_capacity (tmp0 s)"

definition stream_size :: "('f, 'r) serializer \<Rightarrow> nat" where
  "stream_size s = cb_size (tmp0 s)"

definition stream_is_full :: "('f, 'r) serializer \<Rightarrow> bool" where
  "stream_is_full s =
     (if is_chunked s then stream_capacity s < chunked_overhead + 1 else stream_capacity s = 0)"

text \<open>\<open>stream::prepare\<close>: the size of the writable range it hands out.\<close>

definition stream_prepare :: "('f, 'r) serializer \<Rightarrow> (nat, ('f, 'r) serializer) outcome" where
  "stream_prepare s =
     (if is_compressed s then Returns (cb_capacity (tmp1 s)) s
      else if is_chunked s then
        (if cb_capacity (tmp0 s) < chunked_overhead + 1 then Throws length_error s
         else Returns (cb_capacity (tmp0 s) - chunked_overhead) s)
      else Returns (cb_capacity (tmp0 s)) s)"

text \<open>
  \<open>stream::commit(n)\<close>: \<open>bs\<close> are the \<open>n\<close> bytes the caller wrote into the range handed out.
  Without chunking they become readable as they are, as many as the buffer has room for.
\<close>

definition stream_commit :: "string \<Rightarrow> ('f, 'r) serializer \<Rightarrow> (unit, ('f, 'r) serializer) outcome" where
  "stream_commit bs s =
     (if is_compressed s
      then Returns () (s\<lparr>tmp1 := cb_commit (tmp1 s) (take (cb_capacity (tmp1 s)) bs)\<rparr>)
      else if \<not> is_chunked s
      then Returns () (s\<lparr>tmp0 := cb_commit (tmp0 s) (take (cb_capacity (tmp0 s)) bs)\<rparr>)
      else if length bs = 0 then Throws logic_error s
      else
        (case cb_prepare (tmp0 s) (length bs + chunk_header_len) of
           None \<Rightarrow> Throws length_error s
         | Some _ \<Rightarrow>
             (let t1 = cb_commit (tmp0 s) (write_chunk_header (word_of_nat (length bs)) @ bs)
              in case write_chunk_close t1 of
                   None \<Rightarrow> Throws length_error (s\<lparr>tmp0 := t1\<rparr>)
                 | Some t2 \<Rightarrow> Returns () (s\<lparr>tmp0 := t2\<rparr>))))"

definition stream_close :: "('f, 'r) serializer \<Rightarrow> (unit, ('f, 'r) serializer) outcome" where
  "stream_close s =
     (if \<not> more_flag s then Throws logic_error s
      else if is_chunked s \<and> \<not> is_compressed s then
        (case write_last_chunk (tmp0 s) of
           None \<Rightarrow> Throws length_error s
         | Some t1 \<Rightarrow> Returns () (s\<lparr>tmp0 := t1, more_flag := False\<rparr>))
      else Returns () (s\<lparr>more_flag := False\<rparr>))"

subsection \<open>A session\<close>

text \<open>
  The caller's loop: \<open>prepare\<close>, hand the view to the transport, \<open>consume\<close> what it took,
  until \<open>is_done\<close>. The list holds, cycle by cycle, how many bytes the transport is ready to
  take; it takes that many of the view, or all of it when the view is shorter. A cycle in
  which \<open>prepare\<close> returns an error code delivers nothing. The result is the bytes delivered
  and the serializer at the end.
\<close>

fun deliver ::
  "'f filter \<Rightarrow> 'r source \<Rightarrow> nat list \<Rightarrow> ('f, 'r) serializer \<Rightarrow> string \<times> ('f, 'r) serializer" where
  "deliver flt rd [] s = ([], s)"
| "deliver flt rd (n # ns) s =
     (if is_done s then ([], s)
      else case prepare flt rd s of
             Throws f s1 \<Rightarrow> ([], s1)
           | Returns (Inl ec) s1 \<Rightarrow> deliver flt rd ns s1
           | Returns (Inr v) s1 \<Rightarrow>
               (case consume (min n (buffer_size v)) s1 of
                  Throws f s2 \<Rightarrow> ([], s2)
                | Returns u s2 \<Rightarrow>
                    (take (min n (buffer_size v)) (concat v) @ fst (deliver flt rd ns s2),
                     snd (deliver flt rd ns s2))))"

text \<open>The bytes of the output view that are still to be delivered.\<close>

definition pending :: "('f, 'r) serializer \<Rightarrow> string" where
  "pending s = concat (aob_view (out s))"

text \<open>
  Buffers style without compression, where a serializer that is done has nothing left to
  deliver: the invariant of a session in that mode.
\<close>

definition plain_buffers :: "('f, 'r) serializer \<Rightarrow> bool" where
  "plain_buffers s =
     (st s = style_buffers \<and> \<not> is_compressed s \<and> (is_done s \<longrightarrow> pending s = []))"

text \<open>
  A session in buffers style that is under way: not done, the descriptor array holds at
  least the header slot, and the position is inside it.
\<close>

definition in_session :: "('f, 'r) serializer \<Rightarrow> bool" where
  "in_session s =
     (plain_buffers s \<and> \<not> is_done s \<and> (at_header s \<longrightarrow> arr (out s) \<noteq> [])
      \<and> pos (out s) \<le> length (arr (out s)))"

text \<open>
  A bound on the cycles a session in buffers style still needs when the transport takes
  all it is offered: one for each range of the view, and while the expect-continue gate
  is ahead, one for the header alone and one for the sentinel.
\<close>

definition cycles_left :: "('f, 'r) serializer \<Rightarrow> nat" where
  "cycles_left s =
     aob_size (out s) + (if is_expect_continue s then (if at_header s then 2 else 1) else 0)"

subsection \<open>Invariants of a session\<close>

text \<open>
  The style, the mode flags and \<open>is_done_\<close> of a serializer, to say that a step leaves
  them alone.
\<close>

definition mode_of :: "('f, 'r) serializer \<Rightarrow> style \<times> bool \<times> bool \<times> bool \<times> bool" where
  "mode_of s = (st s, is_compressed s, is_chunked s, is_expect_continue s, is_done s)"

text \<open>
  Two facts about a serializer with compression that \<open>start_stream\<close>, and \<open>start_init\<close>
  followed by \<open>start_source\<close> or \<open>start_buffers\<close>, establish, and that \<open>prepare\<close>,
  \<open>consume\<close> and the stream's \<open>commit\<close> and \<open>close\<close> keep. The first: the filter has
  not finished, unless output is still waiting in \<open>tmp0_\<close> or the serializer is done. The
  second: while the expect-continue gate is closed, \<open>tmp0_\<close> is empty. \<open>body_style\<close> is
  the three styles that deliver a body through \<open>tmp0_\<close> when compressed.
\<close>

definition filter_pending :: "('f, 'r) serializer \<Rightarrow> bool" where
  "filter_pending s = (is_done s \<or> \<not> filter_done s \<or> 0 < cb_size (tmp0 s))"

definition gate_closed :: "('f, 'r) serializer \<Rightarrow> bool" where
  "gate_closed s = (is_expect_continue s \<longrightarrow> cb_size (tmp0 s) = 0)"

definition body_style :: "('f, 'r) serializer \<Rightarrow> bool" where
  "body_style s = (st s = style_buffers \<or> st s = style_source \<or> st s = style_stream)"

section \<open>The statements of the specification\<close>

text \<open>
  The condition under which the specification has \<open>consume\<close> set \<open>is_done_\<close>, by style
  and mode, read on the serializer after the call.
\<close>

definition done_condition :: "('f, 'r) serializer \<Rightarrow> bool" where
  "done_condition s =
     (if st s = style_buffers then
        (if is_compressed s then cb_size (tmp0 s) = 0 \<and> filter_done s else aob_empty (out s))
      else if st s = style_source \<or> st s = style_stream then
        (if is_compressed s then cb_size (tmp0 s) = 0 \<and> filter_done s
         else cb_size (tmp0 s) = 0 \<and> \<not> more_flag s)
      else aob_empty (out s))"


text \<open>
  The serializer as the loop of a chunked compressed \<open>prepare\<close> finds it: after the pull
  from the source (in source style) and with the 18 bytes of the chunk header reserved.
\<close>

definition loop_entry :: "'r source \<Rightarrow> ('f, 'r) serializer \<Rightarrow> ('f, 'r) serializer" where
  "loop_entry rd s =
     (let s1 = (if st s = style_source then read_zbuf rd s else s)
      in s1\<lparr>tmp0 := cb_commit (tmp0 s1) (replicate chunk_header_len (CHR 0x00))\<rparr>)"

section \<open>Concrete collaborators\<close>

text \<open>
  For the concrete runs: a source that has nothing and says so, a source that gives one
  more byte whenever it is asked, a filter that passes its input through unchanged (it
  has finished when no more input will come and it has taken all there is), and messages
  with the header \<open>HDR:\<close>.
\<close>

definition no_source :: "unit source" where
  "no_source r n = (\<lparr>rd_bytes = [], rd_finished = True, rd_ec = None\<rparr>, r)"


definition copy_filter :: "unit filter" where
  "copy_filter f n inp more_in =
     (\<lparr>in_bytes = min n (length inp), out_written = take n inp,
       finished = (\<not> more_in \<and> length inp \<le> n)\<rparr>, f)"

definition make_filter :: "bool \<Rightarrow> unit" where
  "make_filter use_gzip = ()"

definition request :: "bool \<Rightarrow> bool \<Rightarrow> encoding \<Rightarrow> message" where
  "request e c enc =
     \<lparr>cbuf = ''HDR:'', expect_is_100_continue = e, te_is_chunked = c, te_encoding = enc\<rparr>"

text \<open>
  A stream in chunked uncompressed mode with 64 bytes of \<open>tmp0_\<close>, all free, for the
  concrete runs of the stream handle.
\<close>

definition chunked_stream :: "(unit, unit) serializer" where
  "chunked_stream = (construct 64)\<lparr>st := style_stream, is_chunked := True, more_flag := True,
     out := make_array 3, tmp0 := cb_new 64\<rparr>"

text \<open>
  Serializers reached through the interface, for the concrete runs: a chunked deflate
  stream that was given \<open>abc\<close> and closed; the same after its first \<open>prepare\<close>, and after
  the caller consumed all of that view; chunked deflate streams whose \<open>tmp0_\<close> has 26 and
  32 bytes; a source-style message with \<open>Expect: 100-continue\<close>; and a chunked uncompressed
  stream with a \<open>tmp0_\<close> of 26 bytes after a commit of four bytes.
\<close>

definition deflate_stream :: "(unit, unit) serializer" where
  "deflate_stream = state_of (stream_close (state_of (stream_commit ''abc''
          (state_of (start_stream make_filter (request False True deflate) (construct 128))))))"

definition undrained :: "(unit, unit) serializer" where
  "undrained = state_of (prepare copy_filter no_source deflate_stream)"


definition small_deflate_stream :: "(unit, unit) serializer" where
  "small_deflate_stream =
     state_of (start_stream make_filter (request False True deflate) (construct 52))"

definition open_deflate_stream :: "(unit, unit) serializer" where
  "open_deflate_stream =
     state_of (start_stream make_filter (request False True deflate) (construct 64))"


definition full_stream :: "(unit, unit) serializer" where
  "full_stream =
     state_of (stream_commit ''abcd''
       (state_of (start_stream make_filter (request False True identity) (construct 26))))"

text \<open>
  Further serializers for the concrete runs: empty-style messages with and without
  \<open>Expect: 100-continue\<close>, a source-style message, and a buffers-style message whose body
  is \<open>hello world\<close> in two ranges.
\<close>

definition expect_empty :: "(unit, unit) serializer" where
  "expect_empty = state_of (start_empty make_filter (request True False identity) (construct 64))"

definition plain_empty :: "(unit, unit) serializer" where
  "plain_empty = state_of (start_empty make_filter (request False False identity) (construct 64))"


definition hello_world :: "(unit, unit) serializer" where
  "hello_world =
     state_of (start_buffers (request False False identity)
       (start_init make_filter (request False False identity)
          ((construct 64)\<lparr>buf := \<lparr>arr = [''hello '', ''world''], pos = 0\<rparr>\<rparr>)))"


section \<open>Descriptor arrays: what the walks leave\<close>

lemma advance_length: "length (advance xs n) \<le> length xs"
  by (induction xs arbitrary: n) (auto simp: le_SucI)

lemma aob_view_consume: "aob_view (aob_consume a n) = advance (aob_view a) n"
proof -
  have "length (advance (aob_view a) n) \<le> length (arr a)"
    using advance_length [of "aob_view a" n] by (simp add: aob_view_def)
  then show ?thesis by (simp add: aob_consume_def aob_view_def Let_def)
qed

lemma concat_advance: "concat (advance xs n) = drop n (concat xs)"
  by (induction xs arbitrary: n) auto

lemma consume_buffers_bytes: "consume_buffers p n = Inr q \<Longrightarrow> concat q = drop n (concat p)"
  by (induction p arbitrary: n) (auto split: if_splits)

lemma copy_eq:
  "i + length bs \<le> length dest \<Longrightarrow> copy dest i bs = take i dest @ bs @ drop (i + length bs) dest"
proof (induction bs arbitrary: dest i)
  case Nil
  then show ?case by simp
next
  case (Cons b bs)
  then have "copy (dest[i := b]) (Suc i) bs =
      take (Suc i) (dest[i := b]) @ bs @ drop (Suc i + length bs) (dest[i := b])"
    by (intro Cons.IH) simp
  with Cons.prems show ?case
    by (simp add: take_Suc_conv_app_nth)
qed



lemma out_consume_flags:
  "is_done (out_consume k s) = is_done s"
  "is_expect_continue (out_consume k s) = is_expect_continue s"
  "is_compressed (out_consume k s) = is_compressed s"
  "st (out_consume k s) = st s"
  "tmp0 (out_consume k s) = tmp0 s"
  by (simp_all add: out_consume_def)

section \<open>Chunk framing: the bytes written\<close>

lemma write_hex_acc: "write_hex k n acc = write_hex k n [] @ acc"
proof (induction k arbitrary: n acc)
  case 0 show ?case by simp
next
  case (Suc k)
  show ?case using Suc.IH [of "drop_bit 4 n" "hexdig ! unat (n AND 0xf) # acc"]
      Suc.IH [of "drop_bit 4 n" "[hexdig ! unat (n AND 0xf)]"] by simp
qed

lemma write_hex_Suc:
  "write_hex (Suc k) n [] = write_hex k (drop_bit 4 n) [] @ [hexdig ! unat (n AND 0xf)]"
  using write_hex_acc [of k "drop_bit 4 n" "[hexdig ! unat (n AND 0xf)]"] by simp

lemma length_write_hex: "length (write_hex k n []) = k"
  by (induction k arbitrary: n) (simp_all add: write_hex_Suc del: write_hex.simps(2))

lemma nibble: "unat (n AND 0xf :: 64 word) = unat n mod 16"
proof -
  have "(n AND 0xf) = take_bit 4 n"
    using take_bit_eq_mask [of 4 n] by (simp add: mask_eq_exp_minus_1)
  moreover have "unat (take_bit 4 n) = take_bit 4 (unat n)" by (rule unsigned_take_bit_eq)
  moreover have "take_bit 4 (unat n) = unat n mod 2 ^ 4" by (rule take_bit_eq_mod)
  ultimately show ?thesis by simp
qed



lemma hexdig_mem: "k < 16 \<Longrightarrow> hexdig ! k \<in> set hexdig"
  by (rule nth_mem) (simp add: hexdig_def)



lemma set_write_hex: "set (write_hex k n []) \<subseteq> set hexdig"
proof (induction k arbitrary: n)
  case 0 show ?case by simp
next
  case (Suc k)
  have "unat n mod 16 < 16" by simp
  then have "hexdig ! (unat n mod 16) \<in> set hexdig" by (rule hexdig_mem)
  with Suc.IH [of "drop_bit 4 n"] show ?case
    by (simp add: write_hex_Suc nibble del: write_hex.simps(2))
qed



lemma length_write_chunk_header: "length (write_chunk_header n) = 18"
  by (simp add: write_chunk_header_def length_write_hex crlf_def)



lemma write_chunk_close_data:
  "write_chunk_close db = Some db' \<Longrightarrow> in_data db' = in_data db @ crlf"
  by (auto simp: write_chunk_close_def cb_commit_def split: option.splits)

lemma write_last_chunk_data:
  "write_last_chunk db = Some db' \<Longrightarrow> in_data db' = in_data db @ last_chunk"
  by (auto simp: write_last_chunk_def cb_commit_def split: option.splits)




lemma write_chunk_header_11: "write_chunk_header 11 = ''000000000000000B'' @ [CHR 0x0D, CHR 0x0A]"
  by code_simp




section \<open>The view that prepare returns\<close>

lemma fill_out_eq:
  "fill_out s =
     (if pos (out s) + (if at_header s then 1 else 0) + 1 < length (arr (out s))
      then Some (filled s) else None)"
  by (simp add: fill_out_def aob_set_def filled_def Let_def)




lemma on_end_eq:
  "on_end s =
     (if pos (out s) + (if at_header s then 1 else 0) + 1 < length (arr (out s))
      then Returns (Inr (aob_view (out (filled s)))) (filled s)
      else Throws undefined_behaviour s)"
  by (simp add: on_end_def fill_out_eq)



lemma on_end_mode: "on_end s = Returns r s' \<Longrightarrow> mode_of s' = mode_of s"
  by (auto simp: on_end_eq mode_of_def filled_def Let_def split: if_splits)

section \<open>The compressed branch\<close>

lemma filter_step_chunked: "is_chunked (snd (filter_step flt s)) = is_chunked s"
  by (simp add: filter_step_def consume_input_def Let_def)

lemma filter_step_filter_done:
  "filter_done (snd (filter_step flt s)) = (filter_done s \<or> finished (fst (filter_step flt s)))"
  by (auto simp: filter_step_def consume_input_def Let_def)

lemma commit_step_simps:
  "is_chunked (commit_step rs) = is_chunked (snd rs)"
  "filter_done (commit_step rs) = filter_done (snd rs)"
  "in_data (tmp0 (commit_step rs)) = in_data (tmp0 (snd rs)) @ out_written (fst rs)"
  "cb_cap (tmp0 (commit_step rs)) = cb_cap (tmp0 (snd rs))"
  by (simp_all add: commit_step_def cb_commit_def)

lemma filter_loop_returns:
  "filter_loop flt s n = Returns k s' \<Longrightarrow>
     in_data (tmp0 s') = in_data (tmp0 s) @ concat (map out_written (filter_trace flt s))
     \<and> k = n + length (concat (map out_written (filter_trace flt s)))
     \<and> filter_done s' = (filter_done s \<or> list_ex finished (filter_trace flt s))
     \<and> is_chunked s' = is_chunked s
     \<and> cb_cap (tmp0 s') = cb_cap (tmp0 s)"
proof (induction flt s n rule: filter_loop.induct)
  case (1 flt s n)
  show ?case
  proof (cases "get_output s = 0")
    case True
    with "1.prems" show ?thesis
      by (auto simp: filter_loop.simps [of flt s n] filter_trace.simps [of flt s] split: if_splits)
  next
    case False
    note out = this
    show ?thesis
    proof (cases "out_written (fst (filter_step flt s)) = []")
      case True
      with out "1.prems" show ?thesis
        by (auto simp: filter_loop.simps [of flt s n] filter_trace.simps [of flt s]
              filter_step_tmp0 filter_step_chunked filter_step_filter_done)
    next
      case False
      with out "1.prems" have
        "filter_loop flt (commit_step (filter_step flt s))
           (n + length (out_written (fst (filter_step flt s)))) = Returns k s'"
        by (simp add: filter_loop.simps [of flt s n])
      from "1.IH" [OF out False this] out False show ?thesis
        by (auto simp: filter_trace.simps [of flt s] commit_step_simps
              filter_step_tmp0 filter_step_chunked filter_step_filter_done)
    qed
  qed
qed

lemma filter_loop_throws:
  "filter_loop flt s n = Throws f s' \<Longrightarrow> f = logic_error"
proof (induction flt s n rule: filter_loop.induct)
  case (1 flt s n)
  then show ?case
    by (auto simp: filter_loop.simps [of flt s n] split: if_splits)
qed

lemma get_output_chunked:
  "is_chunked s \<Longrightarrow> get_output s \<noteq> 0 \<Longrightarrow> get_output s + 7 \<le> cb_capacity (tmp0 s)"
  by (auto simp: get_output_def cb_prepare_def first_part_def Let_def crlf_len_def last_chunk_len_def
      split: option.splits if_splits)

lemma filter_loop_room:
  "filter_loop flt s n = Returns k s' \<Longrightarrow> is_chunked s \<Longrightarrow> 7 \<le> cb_capacity (tmp0 s) \<Longrightarrow>
     7 \<le> cb_capacity (tmp0 s')"
proof (induction flt s n rule: filter_loop.induct)
  case (1 flt s n)
  show ?case
  proof (cases "get_output s = 0")
    case True
    with "1.prems" show ?thesis
      by (auto simp: filter_loop.simps [of flt s n] split: if_splits)
  next
    case False
    note out = this
    show ?thesis
    proof (cases "out_written (fst (filter_step flt s)) = []")
      case True
      with out "1.prems" show ?thesis
        by (auto simp: filter_loop.simps [of flt s n] filter_step_tmp0)
    next
      case False
      with out "1.prems" have l:
        "filter_loop flt (commit_step (filter_step flt s))
           (n + length (out_written (fst (filter_step flt s)))) = Returns k s'"
        by (simp add: filter_loop.simps [of flt s n])
      have c: "is_chunked (commit_step (filter_step flt s))"
        using "1.prems"(2) by (simp add: commit_step_simps filter_step_chunked)
      have "length (out_written (fst (filter_step flt s))) + 7 \<le> cb_capacity (tmp0 s)"
        using filter_step_written [of flt s] get_output_chunked [OF "1.prems"(2) out] by simp
      then have "7 \<le> cb_capacity (tmp0 (commit_step (filter_step flt s)))"
        by (simp add: commit_step_def cb_commit_def cb_capacity_def cb_size_def filter_step_tmp0)
      from "1.IH" [OF out False l c this] show ?thesis .
    qed
  qed
qed


lemma on_end_tmp0:
  "on_end s = Returns r s' \<Longrightarrow> tmp0 s' = tmp0 s \<and> filter_done s' = filter_done s"
  by (auto simp: on_end_def fill_out_def Let_def split: option.splits)

lemma finish_chunk_data:
  "finish_chunk c k s = Returns u s' \<Longrightarrow>
     in_data (tmp0 s') =
       overwrite (in_data (tmp0 s)) c (write_chunk_header (word_of_nat k)) @ crlf
         @ (if filter_done s then last_chunk else [])
     \<and> filter_done s' = filter_done s"
  by (auto simp: finish_chunk_def Let_def dest!: write_chunk_close_data write_last_chunk_data
      split: option.splits if_splits)

lemma overwrite_front: "length h = length z \<Longrightarrow> overwrite (z @ p) 0 h = h @ p"
  by (simp add: overwrite_def)

lemma prepare_compressed_chunk:
  assumes ch: "is_chunked s" and ret: "prepare_compressed flt rd s = Returns r s'"
  shows "in_data (tmp0 s) = []
     \<and> in_data (tmp0 s') =
         write_chunk_header (word_of_nat (length (concat (map out_written (filter_trace flt (loop_entry rd s))))))
         @ concat (map out_written (filter_trace flt (loop_entry rd s))) @ crlf
         @ (if filter_done s \<or> list_ex finished (filter_trace flt (loop_entry rd s))
            then last_chunk else [])"
proof -
  define s1 where "s1 = (if st s = style_source then read_zbuf rd s else s)"
  have s1: "is_chunked s1" "tmp0 s1 = tmp0 s" "filter_done s1 = filter_done s"
    using ch by (simp_all add: s1_def read_zbuf_def Let_def)
  from ret have empty: "cb_size (tmp0 s) = 0"
    by (auto simp: prepare_compressed_def split: if_splits)
  from ret have cap: "\<not> cb_capacity (tmp0 s) < chunked_overhead + 6 + 1"
    by (auto simp: prepare_compressed_def split: if_splits)
  have unfold: "prepare_compressed flt rd s =
      (case reserve_chunk_header s1 of
         Throws f s2 \<Rightarrow> Throws f s2
       | Returns chunk_header s2 \<Rightarrow>
           (case filter_loop flt s2 0 of
              Throws f s3 \<Rightarrow> Throws f s3
            | Returns num_written s3 \<Rightarrow>
                (case finish_chunk chunk_header num_written s3 of
                   Throws f s4 \<Rightarrow> Throws f s4
                 | Returns _ s4 \<Rightarrow> on_end s4)))"
    using empty cap s1(1) by (simp add: prepare_compressed_def Let_def s1_def [symmetric])
  obtain c s2 where res: "reserve_chunk_header s1 = Returns c s2"
    using ret unfolding unfold by (cases "reserve_chunk_header s1") simp_all
  obtain k s3 where loop: "filter_loop flt s2 0 = Returns k s3"
    using ret unfolding unfold res by (cases "filter_loop flt s2 0") simp_all
  obtain u s4 where fin: "finish_chunk c k s3 = Returns u s4"
    using ret unfolding unfold res by (cases "finish_chunk c k s3") (simp_all add: loop)
  have e: "on_end s4 = Returns r s'"
    using ret unfolding unfold res by (simp add: loop fin)
  from res have c: "c = 0" and s2: "s2 = loop_entry rd s"
    using empty s1(2)
    by (auto simp: reserve_chunk_header_def loop_entry_def Let_def s1_def [symmetric] cb_size_def
        split: option.splits if_splits)
  have d2: "in_data (tmp0 s2) = replicate 18 (CHR 0x00)" "filter_done s2 = filter_done s"
    using empty s1 by (simp_all add: s2 loop_entry_def Let_def s1_def [symmetric] cb_commit_def
        cb_size_def chunk_header_len_def)
  note l = filter_loop_returns [OF loop]
  note f = finish_chunk_data [OF fin]
  note o = on_end_tmp0 [OF e]
  let ?P = "concat (map out_written (filter_trace flt s2))"
  have "overwrite (in_data (tmp0 s3)) c (write_chunk_header (word_of_nat k)) =
          write_chunk_header (word_of_nat k) @ ?P"
    using l d2 c by (simp add: overwrite_front length_write_chunk_header)
  with l f o d2 empty show ?thesis
    by (simp add: s2 [symmetric] cb_size_def)
qed

lemma prepare_compressed_no_length_error:
  assumes cap: "chunked_overhead + 6 + 1 \<le> cb_capacity (tmp0 s)"
  shows "prepare_compressed flt rd s \<noteq> Throws length_error s'"
proof
  assume t: "prepare_compressed flt rd s = Throws length_error s'"
  define s1 where "s1 = (if st s = style_source then read_zbuf rd s else s)"
  have s1: "is_chunked s1 = is_chunked s" "tmp0 s1 = tmp0 s"
    by (simp_all add: s1_def read_zbuf_def Let_def)
  from t cap have empty: "cb_size (tmp0 s) = 0"
    by (auto simp: prepare_compressed_def split: if_splits)
  show False
  proof (cases "is_chunked s")
    case False
    with t cap empty s1 show False
      by (auto simp: prepare_compressed_def Let_def s1_def [symmetric] on_end_def
          dest: filter_loop_throws split: if_splits outcome.splits option.splits)
  next
    case True
    have "cb_prepare (tmp0 s1) chunk_header_len \<noteq> None"
      using cap s1 by (simp add: cb_prepare_def chunk_header_len_def chunked_overhead_def Let_def)
    then have r: "reserve_chunk_header s1 \<noteq> Throws length_error x" for x
      by (auto simp: reserve_chunk_header_def split: option.splits)
    { fix c s2 assume res: "reserve_chunk_header s1 = Returns c s2"
      then have c2: "is_chunked s2" "14 \<le> cb_capacity (tmp0 s2)"
        using cap s1 True empty
        by (auto simp: reserve_chunk_header_def cb_commit_def cb_capacity_def cb_size_def
            chunk_header_len_def chunked_overhead_def crlf_len_def last_chunk_len_def
            split: option.splits if_splits)
      have c0: "c = 0" "18 \<le> length (in_data (tmp0 s2))" using res empty s1
        by (auto simp: reserve_chunk_header_def cb_commit_def cb_size_def chunk_header_len_def
            split: option.splits if_splits)
      { fix k s3 assume loop: "filter_loop flt s2 0 = Returns k s3"
        from filter_loop_room [OF loop c2(1)] c2(2) have room: "7 \<le> cb_capacity (tmp0 s3)" by simp
        have len: "18 \<le> length (in_data (tmp0 s3))"
          using filter_loop_returns [OF loop] c0 by simp
        have "finish_chunk c k s3 \<noteq> Throws length_error x" for x
          using room len c0
          by (auto simp: finish_chunk_def Let_def write_chunk_close_def write_last_chunk_def
              cb_prepare_def cb_commit_def cb_capacity_def cb_size_def overwrite_def
              length_write_chunk_header crlf_def
              split: option.splits if_splits) }
      note fin = this
      have "(case filter_loop flt s2 0 of
                      Throws f s3 \<Rightarrow> Throws f s3
                    | Returns num_written s3 \<Rightarrow>
                        (case finish_chunk c num_written s3 of
                           Throws f s4 \<Rightarrow> Throws f s4
                         | Returns _ s4 \<Rightarrow> on_end s4)) \<noteq> Throws length_error s'"
        using fin by (auto simp: on_end_def dest: filter_loop_throws split: outcome.splits option.splits) }
    with t r True s1 cap empty show False
      by (auto simp: prepare_compressed_def Let_def s1_def [symmetric] split: if_splits outcome.splits)
  qed
qed

lemma filter_step_mode: "mode_of (snd (filter_step flt s)) = mode_of s"
  by (simp add: filter_step_def consume_input_def mode_of_def Let_def)

lemma commit_step_mode: "mode_of (commit_step rs) = mode_of (snd rs)"
  by (simp add: commit_step_def mode_of_def)

lemma filter_loop_mode: "filter_loop flt s n = Returns k s' \<Longrightarrow> mode_of s' = mode_of s"
proof (induction flt s n rule: filter_loop.induct)
  case (1 flt s n)
  show ?case
  proof (cases "get_output s = 0")
    case True
    with "1.prems" show ?thesis
      by (auto simp: filter_loop.simps [of flt s n] split: if_splits)
  next
    case False
    note out = this
    show ?thesis
    proof (cases "out_written (fst (filter_step flt s)) = []")
      case True
      with out "1.prems" show ?thesis
        by (auto simp: filter_loop.simps [of flt s n] filter_step_mode)
    next
      case False
      with out "1.prems" have
        "filter_loop flt (commit_step (filter_step flt s))
           (n + length (out_written (fst (filter_step flt s)))) = Returns k s'"
        by (simp add: filter_loop.simps [of flt s n])
      from "1.IH" [OF out False this] show ?thesis
        by (simp add: commit_step_mode filter_step_mode)
    qed
  qed
qed

lemma finish_chunk_mode: "finish_chunk c k s = Returns u s' \<Longrightarrow> mode_of s' = mode_of s"
  by (auto simp: finish_chunk_def mode_of_def Let_def split: option.splits if_splits)

lemma reserve_chunk_header_mode: "reserve_chunk_header s = Returns c s' \<Longrightarrow> mode_of s' = mode_of s"
  by (auto simp: reserve_chunk_header_def mode_of_def split: option.splits if_splits)

lemma read_zbuf_mode: "mode_of (read_zbuf rd s) = mode_of s"
  by (simp add: read_zbuf_def mode_of_def Let_def)

lemma prepare_compressed_mode:
  assumes ch: "is_chunked s" and ret: "prepare_compressed flt rd s = Returns r s'"
  shows "mode_of s' = mode_of s"
proof -
  define s1 where "s1 = (if st s = style_source then read_zbuf rd s else s)"
  have s1: "is_chunked s1" "mode_of s1 = mode_of s"
    using ch by (simp_all add: s1_def read_zbuf_def mode_of_def Let_def)
  from ret have empty: "cb_size (tmp0 s) = 0"
    and cap: "\<not> cb_capacity (tmp0 s) < chunked_overhead + 6 + 1"
    by (auto simp: prepare_compressed_def split: if_splits)
  have unfold: "prepare_compressed flt rd s =
      (case reserve_chunk_header s1 of
         Throws f s2 \<Rightarrow> Throws f s2
       | Returns chunk_header s2 \<Rightarrow>
           (case filter_loop flt s2 0 of
              Throws f s3 \<Rightarrow> Throws f s3
            | Returns num_written s3 \<Rightarrow>
                (case finish_chunk chunk_header num_written s3 of
                   Throws f s4 \<Rightarrow> Throws f s4
                 | Returns _ s4 \<Rightarrow> on_end s4)))"
    using empty cap s1(1) by (simp add: prepare_compressed_def Let_def s1_def [symmetric])
  obtain c s2 where res: "reserve_chunk_header s1 = Returns c s2"
    using ret unfolding unfold by (cases "reserve_chunk_header s1") simp_all
  obtain k s3 where loop: "filter_loop flt s2 0 = Returns k s3"
    using ret unfolding unfold res by (cases "filter_loop flt s2 0") simp_all
  obtain u s4 where fin: "finish_chunk c k s3 = Returns u s4"
    using ret unfolding unfold res by (cases "finish_chunk c k s3") (simp_all add: loop)
  have e: "on_end s4 = Returns r s'"
    using ret unfolding unfold res by (simp add: loop fin)
  from reserve_chunk_header_mode [OF res] filter_loop_mode [OF loop] finish_chunk_mode [OF fin]
    on_end_mode [OF e] s1(2)
  show ?thesis by simp
qed

section \<open>Invariants of a session with compression\<close>

lemma start_stream_session:
  "start_stream mk m s = Returns u s' \<Longrightarrow> filter_pending s' \<and> gate_closed s' \<and> body_style s'"
  by (auto simp: start_stream_def start_tmp0_def reserve_tmp1_def start_init_def reset_def
      set_hp_def Let_def filter_pending_def gate_closed_def body_style_def cb_new_def cb_size_def
      split: if_splits)

lemma start_source_session:
  "start_source m r (start_init mk m s) = Returns u s' \<Longrightarrow>
     filter_pending s' \<and> gate_closed s' \<and> body_style s'"
  by (auto simp: start_source_def start_tmp0_def reserve_tmp1_def start_init_def reset_def
      set_hp_def Let_def filter_pending_def gate_closed_def body_style_def cb_new_def cb_size_def
      split: if_splits)

lemma start_buffers_session:
  "start_buffers m (start_init mk m s) = Returns u s' \<Longrightarrow> is_compressed s' \<Longrightarrow>
     filter_pending s' \<and> gate_closed s' \<and> body_style s'"
  by (auto simp: start_buffers_def start_init_def reset_def
      set_hp_def Let_def filter_pending_def gate_closed_def body_style_def cb_new_def cb_size_def
      split: if_splits)

lemma consume_style_session:
  assumes "body_style s" and "is_compressed s" and "filter_pending s" and "gate_closed s"
  shows "filter_pending (consume_style k s) \<and> gate_closed (consume_style k s)
     \<and> body_style (consume_style k s) \<and> is_compressed (consume_style k s)"
proof -
  have "cb_size (cb_consume (tmp0 s) k) \<le> cb_size (tmp0 s)"
    by (simp add: cb_consume_def cb_size_def)
  with assms show ?thesis
    by (auto simp: consume_style_def Let_def filter_pending_def gate_closed_def body_style_def)
qed

lemma out_consume_session:
  "filter_pending (out_consume k s) = filter_pending s"
  "gate_closed (out_consume k s) = gate_closed s"
  "body_style (out_consume k s) = body_style s"
  by (simp_all add: out_consume_def filter_pending_def gate_closed_def body_style_def)

lemma consume_session:
  assumes "body_style s" and "is_compressed s" and "filter_pending s" and "gate_closed s"
    and "consume n s = Returns u s'"
  shows "filter_pending s' \<and> gate_closed s' \<and> body_style s' \<and> is_compressed s'"
proof -
  have o: "body_style (out_consume k s)" "is_compressed (out_consume k s)"
    "filter_pending (out_consume k s)" "gate_closed (out_consume k s)" for k
    using assms(1-4) by (simp_all add: out_consume_session out_consume_flags)
  from assms(5) have "s' = out_consume n s \<or> s' = consume_style n s
      \<or> s' = consume_style (n - length (hp s)) (out_consume (length (hp s)) s)"
    by (auto simp: consume_def split: if_splits)
  with o assms(1-4) consume_style_session [of s n]
    consume_style_session [where s = "out_consume (length (hp s)) s" and k = "n - length (hp s)"]
  show ?thesis by auto
qed

lemma prepare_session:
  assumes "is_compressed s" and "is_chunked s" and "filter_pending s" and "gate_closed s"
    and "prepare flt rd s = Returns r s'"
  shows "filter_pending s' \<and> gate_closed s' \<and> st s' = st s \<and> is_compressed s' \<and> is_chunked s'"
proof (cases "is_expect_continue s")
  case True
  with assms show ?thesis
    by (auto simp: prepare_def filter_pending_def gate_closed_def split: if_splits)
next
  case False
  with assms have p: "prepare_compressed flt rd s = Returns r s'"
    by (auto simp: prepare_def prepare_body_def split: if_splits)
  from prepare_compressed_chunk [OF assms(2) p] have "0 < cb_size (tmp0 s')"
    by (simp add: cb_size_def length_write_chunk_header)
  moreover have "is_expect_continue s' = is_expect_continue s \<and> st s' = st s
      \<and> is_compressed s' = is_compressed s \<and> is_chunked s' = is_chunked s"
    using prepare_compressed_mode [OF assms(2) p] by (simp add: mode_of_def)
  ultimately show ?thesis using False assms(1,2)
    by (simp add: filter_pending_def gate_closed_def)
qed


lemma prepare_compressed_mode_plain:
  assumes "\<not> is_chunked s" and ret: "prepare_compressed flt rd s = Returns r s'"
  shows "mode_of s' = mode_of s"
proof -
  define s1 where "s1 = (if st s = style_source then read_zbuf rd s else s)"
  have s1: "\<not> is_chunked s1" "mode_of s1 = mode_of s"
    using assms(1) by (simp_all add: s1_def read_zbuf_def mode_of_def Let_def)
  from ret have empty: "cb_size (tmp0 s) = 0"
    and cap: "\<not> cb_capacity (tmp0 s) < chunked_overhead + 6 + 1"
    by (auto simp: prepare_compressed_def split: if_splits)
  have unfold: "prepare_compressed flt rd s =
      (case filter_loop flt s1 0 of
         Throws f s3 \<Rightarrow> Throws f s3
       | Returns num_written s3 \<Rightarrow> on_end s3)"
    using empty cap s1(1) by (simp add: prepare_compressed_def Let_def s1_def [symmetric])
  obtain k s3 where loop: "filter_loop flt s1 0 = Returns k s3"
    using ret unfolding unfold by (cases "filter_loop flt s1 0") simp_all
  have e: "on_end s3 = Returns r s'"
    using ret unfolding unfold by (simp add: loop)
  from filter_loop_mode [OF loop] on_end_mode [OF e] s1(2) show ?thesis by simp
qed

lemma prepare_gate:
  assumes "is_compressed s" and "gate_closed s" and "prepare flt rd s = Returns r s'"
  shows "gate_closed s' \<and> is_compressed s' \<and> st s' = st s"
proof (cases "is_expect_continue s")
  case True
  with assms show ?thesis
    by (auto simp: prepare_def gate_closed_def split: if_splits)
next
  case False
  with assms have p: "prepare_compressed flt rd s = Returns r s'"
    by (auto simp: prepare_def prepare_body_def split: if_splits)
  have "mode_of s' = mode_of s"
    using p prepare_compressed_mode [of s flt rd r s'] prepare_compressed_mode_plain [of s flt rd r s']
    by (cases "is_chunked s") simp_all
  with False assms(1) show ?thesis by (simp add: mode_of_def gate_closed_def)
qed

lemma stream_session:
  assumes "is_compressed s" and "filter_pending s" and "gate_closed s"
  shows "filter_pending (state_of (stream_commit bs s)) \<and> gate_closed (state_of (stream_commit bs s))"
    and "filter_pending (state_of (stream_close s)) \<and> gate_closed (state_of (stream_close s))"
  using assms
  by (simp_all add: stream_commit_def stream_close_def filter_pending_def gate_closed_def)




text \<open>
  C8. In compressed mode, chunked or not, once \<open>prepare\<close> is past its precondition, the
  expect-continue gate and the test that \<open>tmp0_\<close> is empty, the bound it enforces on the
  capacity of \<open>tmp0_\<close> is \<open>chunked_overhead_ + 6 + 1 = 32\<close>, not 26: below 32 it throws the
  length error, and from 32 on no length error is thrown anywhere in the call.
\<close>

theorem compressed_capacity_bound:
  assumes "is_compressed s" and "\<not> is_done s" and "\<not> is_expect_continue s"
    and "cb_size (tmp0 s) = 0"
  shows "(cb_capacity (tmp0 s) < 32 \<longrightarrow> prepare flt rd s = Throws length_error s)
       \<and> (32 \<le> cb_capacity (tmp0 s) \<longrightarrow> (\<forall>s'. prepare flt rd s \<noteq> Throws length_error s'))"
proof -
  have p: "prepare flt rd s = prepare_compressed flt rd s"
    using assms by (simp add: prepare_def prepare_body_def)
  have "cb_capacity (tmp0 s) < 32 \<Longrightarrow> prepare_compressed flt rd s = Throws length_error s"
    using assms(4)
    by (simp add: prepare_compressed_def chunked_overhead_def chunk_header_len_def crlf_len_def
        last_chunk_len_def)
  moreover have "32 \<le> cb_capacity (tmp0 s) \<Longrightarrow> prepare_compressed flt rd s \<noteq> Throws length_error s'" for s'
    by (rule prepare_compressed_no_length_error)
       (simp add: chunked_overhead_def chunk_header_len_def crlf_len_def last_chunk_len_def)
  ultimately show ?thesis unfolding p by blast
qed

text \<open>With a capacity of 26, the bound of the claim, \<open>prepare\<close> throws the length error.\<close>

theorem compressed_capacity_counterexample:
  "is_chunked small_deflate_stream \<and> is_compressed small_deflate_stream
   \<and> cb_capacity (tmp0 small_deflate_stream) = chunk_header_len + crlf_len + last_chunk_len + 1
   \<and> prepare copy_filter no_source small_deflate_stream = Throws length_error small_deflate_stream"
  by code_simp

theorem compressed_capacity_bound_witness:
  "cb_capacity (tmp0 small_deflate_stream) = 26
   \<and> prepare copy_filter no_source small_deflate_stream = Throws length_error small_deflate_stream
   \<and> cb_capacity (tmp0 open_deflate_stream) = 32
   \<and> returned (prepare copy_filter no_source open_deflate_stream)"
proof -
  have a: "is_compressed small_deflate_stream" "\<not> is_done small_deflate_stream"
    "\<not> is_expect_continue small_deflate_stream" "cb_size (tmp0 small_deflate_stream) = 0"
    "cb_capacity (tmp0 small_deflate_stream) = 26"
    by code_simp+
  have b: "is_compressed open_deflate_stream" "\<not> is_done open_deflate_stream"
    "\<not> is_expect_continue open_deflate_stream" "cb_size (tmp0 open_deflate_stream) = 0"
    "cb_capacity (tmp0 open_deflate_stream) = 32"
    "returned (prepare copy_filter no_source open_deflate_stream)"
    by code_simp+
  from compressed_capacity_bound [OF a(1-4), of copy_filter no_source]
    compressed_capacity_bound [OF b(1-4), of copy_filter no_source] a b
  show ?thesis by simp
qed

section \<open>Preconditions and the expect-continue gate\<close>



lemma set_hp_header:
  "arr (out s) \<noteq> [] \<Longrightarrow> pos (out s) = 0 \<Longrightarrow>
     at_header (set_hp h s) \<and> arr (out (set_hp h s)) \<noteq> [] \<and> hp (set_hp h s) = h"
  by (cases "arr (out s)") (simp_all add: set_hp_def at_header_def hp_def)

lemma start_tmp0_header:
  assumes "start_tmp0 m s = Returns u s'" and "arr (out s) \<noteq> []" and "pos (out s) = 0"
  shows "at_header s' \<and> arr (out s') \<noteq> [] \<and> hp s' = cbuf m"
proof -
  let ?s1 = "s\<lparr>tmp0 := cb_new (ws_size s)\<rparr>"
  from assms(1) have "s' = (set_hp (cbuf m) ?s1)\<lparr>more_flag := True\<rparr>"
    by (auto simp: start_tmp0_def Let_def split: if_splits)
  moreover have "arr (out ?s1) \<noteq> []" "pos (out ?s1) = 0" using assms(2,3) by simp_all
  note set_hp_header [OF this, of "cbuf m"]
  ultimately show ?thesis by (simp add: at_header_def hp_def)
qed

lemma length_copy: "length (copy dest i bs) = length dest"
  by (induction bs arbitrary: dest i) simp_all

lemma reserve_tmp1_out: "out (reserve_tmp1 s) = out s"
  by (simp add: reserve_tmp1_def)

lemma start_leaves_header:
  "start_empty mk m s = Returns u s' \<or> start_stream mk m s = Returns u s'
     \<or> start_source m r s = Returns u s' \<or> start_buffers m s = Returns u s' \<Longrightarrow>
   at_header s' \<and> arr (out s') \<noteq> [] \<and> hp s' = cbuf m"
proof (elim disjE)
  assume "start_empty mk m s = Returns u s'"
  then show ?thesis
    by (auto simp: start_empty_def Let_def set_hp_def make_array_def aob_put_def at_header_def
        hp_def split: if_splits)
next
  assume "start_stream mk m s = Returns u s'"
  then show ?thesis
    unfolding start_stream_def
    by (rule start_tmp0_header) (simp_all add: reserve_tmp1_out make_array_def)
next
  assume "start_source m r s = Returns u s'"
  then show ?thesis
    unfolding start_source_def
    by (rule start_tmp0_header) (simp_all add: reserve_tmp1_out make_array_def)
next
  assume a: "start_buffers m s = Returns u s'"
  let ?s0 = "s\<lparr>st := style_buffers\<rparr>"
  show ?thesis
  proof (cases "is_compressed s")
    case True
    with a have "s' = (set_hp (cbuf m) (?s0\<lparr>out := make_array (1 + 2)\<rparr>))
        \<lparr>tmp0 := cb_new (ws_size ?s0), more_flag := True\<rparr>"
      by (simp add: start_buffers_def)
    moreover have "at_header (set_hp (cbuf m) (?s0\<lparr>out := make_array (1 + 2)\<rparr>))
        \<and> arr (out (set_hp (cbuf m) (?s0\<lparr>out := make_array (1 + 2)\<rparr>))) \<noteq> []
        \<and> hp (set_hp (cbuf m) (?s0\<lparr>out := make_array (1 + 2)\<rparr>)) = cbuf m"
      by (rule set_hp_header) (simp_all add: make_array_def)
    ultimately show ?thesis by (simp add: at_header_def hp_def)
  next
    case False
    note nc = this
    show ?thesis
    proof (cases "is_chunked s")
      case False
      define a0 where "a0 = make_array (1 + aob_size (buf ?s0))"
      define o0 where "o0 = a0\<lparr>arr := copy (arr a0) 1 (aob_view (buf ?s0))\<rparr>"
      from a nc False have "s' = set_hp (cbuf m) (?s0\<lparr>out := o0\<rparr>)"
        by (simp add: start_buffers_def Let_def o0_def a0_def)
      moreover have "arr (out (?s0\<lparr>out := o0\<rparr>)) \<noteq> []" "pos (out (?s0\<lparr>out := o0\<rparr>)) = 0"
        by (simp_all add: o0_def a0_def make_array_def length_0_conv [symmetric] length_copy
            del: length_0_conv)
      note set_hp_header [OF this, of "cbuf m"]
      ultimately show ?thesis by simp
    next
      case True
      define a0 where "a0 = make_array (1 + 1 + aob_size (buf ?s0) + 1)"
      define o0 where "o0 = a0\<lparr>arr := copy (arr a0) 2 (aob_view (buf ?s0))\<rparr>"
      define o1 where "o1 = aob_put (aob_put o0 1
          (write_chunk_header (word_of_nat (buffer_size (aob_view (buf ?s0))))))
          (aob_size o0 - 1) (crlf @ last_chunk)"
      from a nc True have "s' = set_hp (cbuf m) (?s0\<lparr>out := o1\<rparr>)"
        by (auto simp: start_buffers_def Let_def o1_def o0_def a0_def split: if_splits)
      moreover have "arr (out (?s0\<lparr>out := o1\<rparr>)) \<noteq> []" "pos (out (?s0\<lparr>out := o1\<rparr>)) = 0"
        by (simp_all add: o1_def o0_def a0_def make_array_def aob_put_def
            length_0_conv [symmetric] length_copy del: length_0_conv)
      note set_hp_header [OF this, of "cbuf m"]
      ultimately show ?thesis by simp
    qed
  qed
qed



text \<open>
  C10. \<open>stream::close\<close> with \<open>more_\<close> false throws the logic error and leaves the serializer
  as it was. With \<open>more_\<close> true it never throws that error; it returns, clears \<open>more_\<close> and
  makes a second \<open>close\<close> throw, unless the stream is chunked and uncompressed and \<open>tmp0_\<close>
  has fewer than 5 free bytes, when writing the last chunk throws the length error. A
  \<open>commit\<close> of no more bytes than \<open>stream::prepare\<close> handed out leaves those 5 bytes free.
\<close>

theorem stream_close_faults:
  "(\<not> more_flag s \<longrightarrow> stream_close s = Throws logic_error s)
   \<and> (more_flag s \<and> (is_chunked s \<and> \<not> is_compressed s \<longrightarrow> 5 \<le> cb_capacity (tmp0 s)) \<longrightarrow>
        returned (stream_close s) \<and> \<not> more_flag (state_of (stream_close s))
        \<and> stream_close (state_of (stream_close s)) = Throws logic_error (state_of (stream_close s)))
   \<and> (more_flag s \<and> is_chunked s \<and> \<not> is_compressed s \<and> cb_capacity (tmp0 s) < 5 \<longrightarrow>
        stream_close s = Throws length_error s)
   \<and> (is_chunked s \<and> \<not> is_compressed s \<and> bs \<noteq> [] \<and> stream_prepare s = Returns w s
        \<and> length bs \<le> w \<longrightarrow>
        returned (stream_commit bs s) \<and> 5 \<le> cb_capacity (tmp0 (state_of (stream_commit bs s))))"
  by (auto simp: stream_close_def write_last_chunk_def cb_prepare_def Let_def stream_prepare_def
        stream_commit_def write_chunk_close_def cb_commit_def cb_capacity_def cb_size_def
        chunked_overhead_def chunk_header_len_def crlf_len_def last_chunk_len_def
        length_write_chunk_header crlf_def
      split: option.splits if_splits)

text \<open>
  A first \<open>close\<close> that faults: \<open>tmp0_\<close> has 26 bytes, and a commit of four bytes (a chunk
  of 24) leaves two.
\<close>

theorem stream_close_counterexample:
  "more_flag full_stream \<and> stream_close full_stream = Throws length_error full_stream"
  by code_simp

theorem stream_close_faults_witness:
  "more_flag chunked_stream \<and> is_chunked chunked_stream \<and> \<not> is_compressed chunked_stream
   \<and> 5 \<le> cb_capacity (tmp0 chunked_stream)
   \<and> returned (stream_close chunked_stream)
   \<and> stream_close (state_of (stream_close chunked_stream)) =
        Throws logic_error (state_of (stream_close chunked_stream))
   \<and> stream_prepare chunked_stream = Returns 39 chunked_stream
   \<and> returned (stream_commit ''hello'' chunked_stream)
   \<and> more_flag full_stream \<and> cb_capacity (tmp0 full_stream) < 5
   \<and> stream_close full_stream = Throws length_error full_stream"
proof -
  have a: "more_flag chunked_stream" "is_chunked chunked_stream" "\<not> is_compressed chunked_stream"
    "5 \<le> cb_capacity (tmp0 chunked_stream)" "stream_prepare chunked_stream = Returns 39 chunked_stream"
    by code_simp+
  have b: "more_flag full_stream" "is_chunked full_stream" "\<not> is_compressed full_stream"
    "cb_capacity (tmp0 full_stream) < 5"
    by code_simp+
  from stream_close_faults [of chunked_stream "''hello''" 39]
    stream_close_faults [of full_stream "''hello''" 39] a b
  show ?thesis by simp
qed

section \<open>Completion\<close>

lemma consume_style_done:
  "\<not> is_done s \<Longrightarrow> is_done (consume_style k s) = done_condition (consume_style k s)"
proof (cases "st s")
  case style_buffers
  then show "\<not> is_done s \<Longrightarrow> ?thesis"
    by (cases "is_compressed s")
       (simp_all add: consume_style_def done_condition_def out_consume_def Let_def)
next
  case style_source
  then show "\<not> is_done s \<Longrightarrow> ?thesis"
    by (cases "is_compressed s")
       (simp_all add: consume_style_def done_condition_def Let_def)
next
  case style_stream
  then show "\<not> is_done s \<Longrightarrow> ?thesis"
    by (cases "is_compressed s")
       (simp_all add: consume_style_def done_condition_def Let_def)
next
  case style_none
  then show "\<not> is_done s \<Longrightarrow> ?thesis"
    by (simp add: consume_style_def done_condition_def out_consume_def Let_def)
next
  case style_empty
  then show "\<not> is_done s \<Longrightarrow> ?thesis"
    by (simp add: consume_style_def done_condition_def out_consume_def Let_def)
qed

text \<open>
  C4. On a serializer that is not done, \<open>consume\<close> sets \<open>is_done_\<close> exactly when it
  reaches its switch on the style (\<open>is_expect_continue_\<close> is false, and the call consumes
  the header to its end or the header was consumed before) and, after the call: the output
  view is empty, for the empty style and for buffers style without compression; \<open>tmp0_\<close>
  is empty and \<open>more_\<close> is false, for source and stream style without compression;
  \<open>tmp0_\<close> is empty and \<open>filter_done_\<close> holds, for buffers, source and stream style with
  compression. While \<open>is_expect_continue_\<close> holds, and when the call ends inside the
  header, \<open>is_done_\<close> stays false whatever the view and the buffers are.
\<close>

theorem consume_done:
  assumes "\<not> is_done s"
  shows "is_done (state_of (consume n s)) =
       (\<not> is_expect_continue s \<and> (at_header s \<longrightarrow> length (hp s) \<le> n)
        \<and> done_condition (state_of (consume n s)))"
proof (cases "is_expect_continue s")
  case True
  with assms show ?thesis by (simp add: consume_def out_consume_flags)
next
  case False
  note ne = this
  show ?thesis
  proof (cases "at_header s \<and> n < length (hp s)")
    case True
    with assms ne show ?thesis by (simp add: consume_def out_consume_flags)
  next
    case False
    then have "consume n s = Returns () (consume_style n s)
        \<or> consume n s = Returns () (consume_style (n - length (hp s)) (out_consume (length (hp s)) s))"
      using assms ne by (auto simp: consume_def)
    moreover have "\<not> is_done (out_consume (length (hp s)) s)"
      using assms by (simp add: out_consume_flags)
    ultimately show ?thesis
      using False assms ne consume_style_done [of s n]
        consume_style_done [of "out_consume (length (hp s)) s" "n - length (hp s)"]
      by auto
  qed
qed

text \<open>
  An empty-style message with \<open>Expect: 100-continue\<close>: consuming the four bytes of the
  header empties the output view, and the serializer is not done.
\<close>

theorem consume_done_counterexample:
  "st expect_empty = style_empty \<and> \<not> is_compressed expect_empty \<and> \<not> is_done expect_empty
   \<and> \<not> aob_empty (out expect_empty)
   \<and> returned (consume 4 expect_empty)
   \<and> aob_empty (out (state_of (consume 4 expect_empty)))
   \<and> \<not> is_done (state_of (consume 4 expect_empty))"
  by code_simp

theorem consume_done_witness:
  "\<not> is_done plain_empty \<and> \<not> is_expect_continue plain_empty \<and> at_header plain_empty
   \<and> length (hp plain_empty) \<le> 4
   \<and> aob_empty (out (state_of (consume 4 plain_empty)))
   \<and> is_done (state_of (consume 4 plain_empty))
   \<and> \<not> is_done (state_of (consume 3 plain_empty))
   \<and> \<not> is_done expect_empty \<and> is_expect_continue expect_empty
   \<and> \<not> is_done (state_of (consume 4 expect_empty))
   \<and> \<not> is_done undrained \<and> is_done (state_of (consume 32 undrained))"
proof -
  have a: "\<not> is_done plain_empty" "\<not> is_expect_continue plain_empty" "at_header plain_empty"
    "length (hp plain_empty) \<le> 4" "\<not> length (hp plain_empty) \<le> 3"
    "done_condition (state_of (consume 4 plain_empty))"
    "aob_empty (out (state_of (consume 4 plain_empty)))"
    by code_simp+
  have b: "\<not> is_done expect_empty" "is_expect_continue expect_empty" by code_simp+
  have c: "\<not> is_done undrained" "\<not> is_expect_continue undrained" "at_header undrained"
    "length (hp undrained) \<le> 32" "done_condition (state_of (consume 32 undrained))"
    by code_simp+
  from consume_done [OF a(1), of 4] consume_done [OF a(1), of 3] consume_done [OF b(1), of 4]
    consume_done [OF c(1), of 32] a b c
  show ?thesis by simp
qed

section \<open>Starting a message\<close>











section \<open>Repeated prepare\<close>









section \<open>A session in buffers style\<close>

lemma hp_prefix: "at_header s \<Longrightarrow> pending s = hp s @ concat (tl (arr (out s)))"
  by (cases "arr (out s)") (simp_all add: pending_def aob_view_def at_header_def hp_def)

lemma pending_out_consume: "pending (out_consume k s) = drop k (pending s)"
  by (simp add: pending_def out_consume_def aob_view_consume concat_advance)

lemma aob_empty_pending: "aob_empty (out s) \<Longrightarrow> pending s = []"
  by (simp add: aob_empty_def aob_size_def pending_def aob_view_def)

lemma consume_style_buffers:
  assumes "plain_buffers s" and "\<not> is_done s"
  shows "plain_buffers (consume_style k s) \<and> pending (consume_style k s) = drop k (pending s)"
proof -
  have "consume_style k s =
      (if aob_empty (out (out_consume k s)) then (out_consume k s)\<lparr>is_done := True\<rparr>
       else out_consume k s)"
    using assms by (simp add: consume_style_def plain_buffers_def Let_def)
  moreover have "pending ((out_consume k s)\<lparr>is_done := True\<rparr>) = pending (out_consume k s)"
    by (simp add: pending_def)
  ultimately show ?thesis
    using assms aob_empty_pending [of "out_consume k s"]
    by (auto simp: plain_buffers_def out_consume_flags pending_out_consume)
qed

lemma out_consume_buffers:
  "plain_buffers s \<Longrightarrow> \<not> is_done s \<Longrightarrow> plain_buffers (out_consume k s)"
  by (simp add: plain_buffers_def out_consume_flags)

lemma consume_buffers_style:
  assumes "plain_buffers s" and "\<not> is_done s"
    and "is_expect_continue s \<Longrightarrow> k \<le> length (hp s)"
  shows "\<exists>s2. consume k s = Returns () s2 \<and> plain_buffers s2 \<and> pending s2 = drop k (pending s)"
proof (cases "is_expect_continue s")
  case True
  with assms show ?thesis
    by (simp add: consume_def out_consume_buffers pending_out_consume)
next
  case False
  note ne = this
  show ?thesis
  proof (cases "at_header s")
    case False
    with assms ne show ?thesis by (simp add: consume_def consume_style_buffers)
  next
    case True
    show ?thesis
    proof (cases "k < length (hp s)")
      case True
      with assms ne \<open>at_header s\<close> show ?thesis
        by (simp add: consume_def out_consume_buffers pending_out_consume)
    next
      case False
      let ?s1 = "out_consume (length (hp s)) s"
      have 1: "plain_buffers ?s1" "\<not> is_done ?s1"
        using assms by (simp_all add: out_consume_buffers out_consume_flags)
      have "pending (consume_style (k - length (hp s)) ?s1) = drop k (pending s)"
        using consume_style_buffers [OF 1, of "k - length (hp s)"] False
        by (simp add: pending_out_consume)
      with consume_style_buffers [OF 1, of "k - length (hp s)"] assms ne True False
      show ?thesis by (simp add: consume_def)
    qed
  qed
qed

lemma prepare_buffers:
  assumes "plain_buffers s" and "\<not> is_done s"
  shows "(is_expect_continue s \<and> at_header s \<and> prepare flt rd s = Returns (Inr [hp s]) s)
       \<or> (is_expect_continue s \<and> \<not> at_header s
           \<and> prepare flt rd s = Returns (Inl expect_100_continue) (s\<lparr>is_expect_continue := False\<rparr>))
       \<or> (\<not> is_expect_continue s \<and> prepare flt rd s = Returns (Inr (aob_view (out s))) s)"
  using assms by (simp add: prepare_def prepare_body_def plain_buffers_def)

lemma deliver_buffers:
  "plain_buffers s \<Longrightarrow> fst (deliver flt rd ns s) @ pending (snd (deliver flt rd ns s)) = pending s
     \<and> plain_buffers (snd (deliver flt rd ns s))"
proof (induction ns arbitrary: s)
  case Nil
  then show ?case by simp
next
  case (Cons n ns)
  show ?case
  proof (cases "is_done s")
    case True
    with Cons.prems show ?thesis by simp
  next
    case False
    note nd = this
    from prepare_buffers [OF Cons.prems nd, of flt rd]
    consider (hdr) "is_expect_continue s" "at_header s" "prepare flt rd s = Returns (Inr [hp s]) s"
      | (gate) "prepare flt rd s = Returns (Inl expect_100_continue) (s\<lparr>is_expect_continue := False\<rparr>)"
      | (body) "\<not> is_expect_continue s" "prepare flt rd s = Returns (Inr (aob_view (out s))) s"
      by blast
    then show ?thesis
    proof cases
      case gate
      have "plain_buffers (s\<lparr>is_expect_continue := False\<rparr>)"
        "pending (s\<lparr>is_expect_continue := False\<rparr>) = pending s"
        using Cons.prems by (simp_all add: plain_buffers_def pending_def)
      with Cons.IH [of "s\<lparr>is_expect_continue := False\<rparr>"] gate nd show ?thesis by simp
    next
      case hdr
      let ?k = "min n (buffer_size [hp s])"
      have k: "?k \<le> length (hp s)" by (simp add: buffer_size_def)
      from consume_buffers_style [OF Cons.prems nd, of ?k] k obtain s2 where
        c: "consume ?k s = Returns () s2" "plain_buffers s2" "pending s2 = drop ?k (pending s)"
        by blast
      have "take ?k (concat [hp s]) = take ?k (pending s)"
        using hp_prefix [OF hdr(2)] k by simp
      with Cons.IH [OF c(2)] c hdr nd show ?thesis by simp
    next
      case body
      let ?k = "min n (buffer_size (aob_view (out s)))"
      from consume_buffers_style [OF Cons.prems nd, of ?k] body(1) obtain s2 where
        c: "consume ?k s = Returns () s2" "plain_buffers s2" "pending s2 = drop ?k (pending s)"
        by blast
      have "take ?k (concat (aob_view (out s))) = take ?k (pending s)"
        by (simp add: pending_def)
      with Cons.IH [OF c(2)] c body nd show ?thesis by simp
    qed
  qed
qed

lemma start_buffers_plain:
  assumes "\<not> is_compressed s0" and "\<not> is_chunked s0"
  shows "start_buffers m s0 = Returns () (state_of (start_buffers m s0))
     \<and> pending (state_of (start_buffers m s0)) = cbuf m @ concat (aob_view (buf s0))
     \<and> st (state_of (start_buffers m s0)) = style_buffers
     \<and> \<not> is_compressed (state_of (start_buffers m s0))
     \<and> is_done (state_of (start_buffers m s0)) = is_done s0"
proof -
  have "copy (replicate (Suc (aob_size (buf s0))) []) 1 (aob_view (buf s0)) = [] # aob_view (buf s0)"
    by (subst copy_eq) (simp_all add: aob_size_def aob_view_def)
  with assms show ?thesis
    by (simp add: start_buffers_def Let_def set_hp_def make_array_def pending_def aob_view_def)
qed

lemma advance_exact:
  "concat (advance xs (length (concat xs))) = []
     \<and> (xs \<noteq> [] \<longrightarrow> length (advance xs (length (concat xs))) < length xs)"
proof (induction xs)
  case Nil
  show ?case by simp
next
  case (Cons b p)
  show ?case
  proof (cases "concat p = []")
    case True
    then show ?thesis by simp
  next
    case False
    then have "p \<noteq> []" by auto
    with Cons False show ?thesis by auto
  qed
qed

lemma aob_size_view: "aob_size a = length (aob_view a)"
  by (simp add: aob_size_def aob_view_def)

lemma pos_consume:
  assumes "pos a \<le> length (arr a)"
  shows "pos a \<le> pos (aob_consume a n) \<and> pos (aob_consume a n) \<le> length (arr (aob_consume a n))"
proof -
  have "length (advance (aob_view a) n) \<le> length (aob_view a)" by (rule advance_length)
  with assms show ?thesis by (simp add: aob_consume_def aob_view_def Let_def)
qed

lemma deliver_done: "is_done s \<Longrightarrow> deliver flt rd ns s = ([], s)"
  by (cases ns) simp_all

lemma consume_rest:
  assumes "plain_buffers s" and "\<not> is_done s" and "\<not> at_header s"
    and "pos (out s) \<le> length (arr (out s))" and "\<not> is_expect_continue s"
  shows "is_done (consume_style (length (pending s)) s)
     \<or> (in_session (consume_style (length (pending s)) s)
        \<and> aob_size (out (consume_style (length (pending s)) s)) < aob_size (out s)
        \<and> \<not> is_expect_continue (consume_style (length (pending s)) s)
        \<and> \<not> at_header (consume_style (length (pending s)) s))"
proof -
  let ?k = "length (pending s)"
  let ?s1 = "out_consume ?k s"
  have c: "consume_style ?k s = (if aob_empty (out ?s1) then ?s1\<lparr>is_done := True\<rparr> else ?s1)"
    using assms(1,2) by (simp add: consume_style_def plain_buffers_def Let_def)
  show ?thesis
  proof (cases "aob_empty (out ?s1)")
    case True
    with c show ?thesis by simp
  next
    case False
    have v: "aob_view (out ?s1) = advance (aob_view (out s)) (length (concat (aob_view (out s))))"
      by (simp add: out_consume_def aob_view_consume pending_def)
    from False have "aob_view (out s) \<noteq> []"
      by (auto simp: aob_empty_def aob_size_view v)
    with advance_exact [of "aob_view (out s)"]
    have less: "aob_size (out ?s1) < aob_size (out s)"
      by (simp add: aob_size_view v)
    have p: "pos (out s) \<le> pos (out ?s1)" "pos (out ?s1) \<le> length (arr (out ?s1))"
      using pos_consume [OF assms(4), of ?k] by (simp_all add: out_consume_def)
    with assms(3) have nh: "\<not> at_header ?s1" by (simp add: at_header_def)
    have "plain_buffers ?s1" using assms(1,2) by (rule out_consume_buffers)
    with False c less nh p assms(2,5) show ?thesis
      by (simp add: in_session_def out_consume_flags)
  qed
qed

lemma cycle_progress:
  assumes s: "in_session s" and n: "length (pending s) \<le> N"
  shows "is_done (snd (deliver flt rd [N] s))
     \<or> (in_session (snd (deliver flt rd [N] s))
        \<and> cycles_left (snd (deliver flt rd [N] s)) < cycles_left s
        \<and> length (pending (snd (deliver flt rd [N] s))) \<le> N)"
proof -
  from s have pb: "plain_buffers s" and nd: "\<not> is_done s"
    and ah: "at_header s \<Longrightarrow> arr (out s) \<noteq> []" and pl: "pos (out s) \<le> length (arr (out s))"
    by (simp_all add: in_session_def)
  from prepare_buffers [OF pb nd, of flt rd]
  consider (hdr) "is_expect_continue s" "at_header s" "prepare flt rd s = Returns (Inr [hp s]) s"
    | (gate) "is_expect_continue s" "\<not> at_header s"
        "prepare flt rd s = Returns (Inl expect_100_continue) (s\<lparr>is_expect_continue := False\<rparr>)"
    | (body) "\<not> is_expect_continue s" "prepare flt rd s = Returns (Inr (aob_view (out s))) s"
    by blast
  then show ?thesis
  proof cases
    case gate
    have "pending (s\<lparr>is_expect_continue := False\<rparr>) = pending s" by (simp add: pending_def)
    with gate s n nd show ?thesis
      by (simp add: in_session_def plain_buffers_def cycles_left_def at_header_def)
  next
    case hdr
    from ah [OF hdr(2)] obtain h rest where a: "arr (out s) = h # rest"
      by (cases "arr (out s)") auto
    have p0: "pos (out s) = 0" using hdr(2) by (simp add: at_header_def)
    have hp: "hp s = h" using a by (simp add: hp_def)
    have "length h \<le> length (pending s)" using hp_prefix [OF hdr(2)] hp by simp
    with n have k: "min N (buffer_size [hp s]) = length h" by (simp add: buffer_size_def hp)
    let ?s2 = "out_consume (length h) s"
    have c: "consume (length h) s = Returns () ?s2"
      using nd hdr(1) hp by (simp add: consume_def)
    have o: "arr (out ?s2) = h # rest" "pos (out ?s2) = 1"
      using a p0 by (simp_all add: out_consume_def aob_consume_def aob_view_def Let_def)
    have "pending ?s2 = drop (length h) (pending s)" by (rule pending_out_consume)
    with n have "length (pending ?s2) \<le> N" by simp
    moreover have "in_session ?s2"
      using out_consume_buffers [OF pb nd, of "length h"] nd o
      by (simp add: in_session_def out_consume_flags at_header_def)
    moreover have "cycles_left ?s2 < cycles_left s"
      using o a p0 hdr(1) by (simp add: cycles_left_def aob_size_def at_header_def out_consume_flags)
    ultimately show ?thesis using hdr(3) nd k c by simp
  next
    case body
    have k: "min N (buffer_size (aob_view (out s))) = length (pending s)"
      using n by (simp add: buffer_size_def pending_def)
    show ?thesis
    proof (cases "at_header s")
      case False
      have c: "consume (length (pending s)) s = Returns () (consume_style (length (pending s)) s)"
        using nd body(1) False by (simp add: consume_def)
      let ?s2 = "consume_style (length (pending s)) s"
      from consume_rest [OF pb nd False pl body(1)]
      have "is_done ?s2 \<or> (in_session ?s2 \<and> cycles_left ?s2 < cycles_left s
          \<and> length (pending ?s2) \<le> N)"
        using consume_style_buffers [OF pb nd, of "length (pending s)"] body(1)
        by (auto simp: cycles_left_def)
      with body(2) nd k c show ?thesis by simp
    next
      case True
      from ah [OF True] obtain h rest where a: "arr (out s) = h # rest"
        by (cases "arr (out s)") auto
      have p0: "pos (out s) = 0" using True by (simp add: at_header_def)
      have hp: "hp s = h" using a by (simp add: hp_def)
      have pe: "pending s = h @ concat rest" using a p0 by (simp add: pending_def aob_view_def)
      let ?s1 = "out_consume (length h) s"
      have o: "arr (out ?s1) = h # rest" "pos (out ?s1) = 1"
        using a p0 by (simp_all add: out_consume_def aob_consume_def aob_view_def Let_def)
      have p1: "pending ?s1 = concat rest" using pe by (simp add: pending_out_consume)
      have 1: "plain_buffers ?s1" "\<not> is_done ?s1" "\<not> at_header ?s1"
        "pos (out ?s1) \<le> length (arr (out ?s1))" "\<not> is_expect_continue ?s1"
        using out_consume_buffers [OF pb nd, of "length h"] nd o body(1)
        by (simp_all add: out_consume_flags at_header_def)
      let ?s2 = "consume_style (length (pending ?s1)) ?s1"
      have c: "consume (length (pending s)) s = Returns () ?s2"
        using nd body(1) True hp pe p1 by (simp add: consume_def)
      have "aob_size (out ?s1) < aob_size (out s)"
        using o a p0 by (simp add: aob_size_def)
      with consume_rest [OF 1]
      have "is_done ?s2 \<or> (in_session ?s2 \<and> cycles_left ?s2 < cycles_left s
          \<and> length (pending ?s2) \<le> N)"
        using consume_style_buffers [OF 1(1,2), of "length (pending ?s1)"] body(1)
        by (auto simp: cycles_left_def)
      with body(2) nd k c show ?thesis by simp
    qed
  qed
qed

lemma deliver_cons:
  assumes "plain_buffers s"
  shows "snd (deliver flt rd (n # ns) s) = snd (deliver flt rd ns (snd (deliver flt rd [n] s)))"
proof (cases "is_done s")
  case True
  then show ?thesis by (simp add: deliver_done)
next
  case False
  note nd = this
  from prepare_buffers [OF assms nd, of flt rd]
  consider (hdr) "is_expect_continue s" "at_header s" "prepare flt rd s = Returns (Inr [hp s]) s"
    | (gate) "prepare flt rd s = Returns (Inl expect_100_continue) (s\<lparr>is_expect_continue := False\<rparr>)"
    | (body) "\<not> is_expect_continue s" "prepare flt rd s = Returns (Inr (aob_view (out s))) s"
    by blast
  then show ?thesis
  proof cases
    case gate
    with nd show ?thesis by simp
  next
    case hdr
    let ?k = "min n (buffer_size [hp s])"
    have "?k \<le> length (hp s)" by (simp add: buffer_size_def)
    with consume_buffers_style [OF assms nd, of ?k] obtain s2 where
      "consume ?k s = Returns () s2" by blast
    with hdr nd show ?thesis by simp
  next
    case body
    let ?k = "min n (buffer_size (aob_view (out s)))"
    from consume_buffers_style [OF assms nd, of ?k] body(1) obtain s2 where
      "consume ?k s = Returns () s2" by blast
    with body nd show ?thesis by simp
  qed
qed

lemma session_completes:
  "cycles_left s < m \<Longrightarrow> in_session s \<or> (plain_buffers s \<and> is_done s) \<Longrightarrow>
     length (pending s) \<le> N \<Longrightarrow> is_done (snd (deliver flt rd (replicate m N) s))"
proof (induction m arbitrary: s)
  case 0
  then show ?case by simp
next
  case (Suc m)
  show ?case
  proof (cases "is_done s")
    case True
    then show ?thesis by (simp add: deliver_done)
  next
    case False
    with Suc.prems(2) have s: "in_session s" by blast
    then have pb: "plain_buffers s" by (simp add: in_session_def)
    let ?s2 = "snd (deliver flt rd [N] s)"
    have d: "snd (deliver flt rd (replicate (Suc m) N) s) = snd (deliver flt rd (replicate m N) ?s2)"
      using deliver_cons [OF pb, of flt rd N "replicate m N"] by simp
    from cycle_progress [OF s Suc.prems(3), of flt rd]
    show ?thesis
    proof
      assume "is_done ?s2"
      then show ?thesis unfolding d by (simp add: deliver_done)
    next
      assume a: "in_session ?s2 \<and> cycles_left ?s2 < cycles_left s \<and> length (pending ?s2) \<le> N"
      with Suc.prems(1) have "cycles_left ?s2 < m" by simp
      with a Suc.IH [of ?s2] show ?thesis unfolding d by blast
    qed
  qed
qed

lemma start_buffers_in_session:
  assumes "\<not> is_compressed s0" and "\<not> is_chunked s0" and "\<not> is_done s0"
  shows "in_session (state_of (start_buffers m s0))
     \<and> cycles_left (state_of (start_buffers m s0)) =
         Suc (aob_size (buf s0)) + (if is_expect_continue s0 then 2 else 0)"
proof -
  have "copy (replicate (Suc (aob_size (buf s0))) []) 1 (aob_view (buf s0)) = [] # aob_view (buf s0)"
    by (subst copy_eq) (simp_all add: aob_size_def aob_view_def)
  with assms show ?thesis
    by (simp add: start_buffers_def Let_def set_hp_def make_array_def in_session_def
        plain_buffers_def cycles_left_def at_header_def aob_size_def aob_view_def)
qed

text \<open>
  C1. A message with identity coding and no chunking, started in buffers style (the body
  is what the ranges of \<open>buf_\<close> denote), and any session of \<open>prepare\<close>/\<open>consume\<close>
  cycles, whatever the transport takes in each of them: the bytes delivered so far,
  followed by the bytes the output view still holds, are the header octets followed by the
  body; so when the session has reached \<open>is_done\<close>, the bytes delivered are exactly the
  header followed by the body. And a transport that takes all it is offered reaches
  \<open>is_done\<close> within as many cycles as the body has ranges, plus four.
\<close>

theorem buffers_session:
  assumes "te_encoding m = identity" and "\<not> te_is_chunked m"
    and "start_buffers m (start_init mk m s0) = Returns () s"
  shows "fst (deliver flt rd ns s) @ pending (snd (deliver flt rd ns s)) =
           cbuf m @ concat (aob_view (buf s0))
     \<and> (is_done (snd (deliver flt rd ns s)) \<longrightarrow>
           fst (deliver flt rd ns s) = cbuf m @ concat (aob_view (buf s0)))
     \<and> is_done (snd (deliver flt rd
          (replicate (aob_size (buf s0) + 4) (length (cbuf m @ concat (aob_view (buf s0))))) s))"
proof -
  let ?s0 = "start_init mk m s0"
  have f: "\<not> is_compressed ?s0" "\<not> is_chunked ?s0" "\<not> is_done ?s0" "buf ?s0 = buf s0"
    using assms(1,2) by (simp_all add: start_init_def reset_def Let_def)
  from start_buffers_plain [OF f(1,2), of m] assms(3) f(3,4)
  have s: "plain_buffers s" "pending s = cbuf m @ concat (aob_view (buf s0))"
    by (simp_all add: plain_buffers_def)
  from start_buffers_in_session [OF f(1,2,3), of m] assms(3) f(4)
  have i: "in_session s" "cycles_left s < aob_size (buf s0) + 4" by simp_all
  have "length (pending s) \<le> length (cbuf m @ concat (aob_view (buf s0)))" using s(2) by simp
  with i have "is_done (snd (deliver flt rd
      (replicate (aob_size (buf s0) + 4) (length (cbuf m @ concat (aob_view (buf s0))))) s))"
    by (intro session_completes) simp_all
  with deliver_buffers [OF s(1), of flt rd ns] s(2) show ?thesis
    by (auto simp: plain_buffers_def)
qed

lemma returned_start: "returned x \<Longrightarrow> x = Returns () (state_of x)"
  by (cases x) simp_all

theorem buffers_session_witness:
  "te_encoding (request False False identity) = identity
   \<and> \<not> te_is_chunked (request False False identity)
   \<and> is_done (snd (deliver copy_filter no_source [3, 5, 0, 100] hello_world))
   \<and> fst (deliver copy_filter no_source [3, 5, 0, 100] hello_world) = ''HDR:hello world''"
proof -
  let ?m = "request False False identity"
  let ?s0 = "(construct 64)\<lparr>buf := \<lparr>arr = [''hello '', ''world''], pos = 0\<rparr>\<rparr>"
  have m: "te_encoding ?m = identity" "\<not> te_is_chunked ?m" "cbuf ?m = ''HDR:''"
    by code_simp+
  have "returned (start_buffers ?m (start_init make_filter ?m ?s0))" by code_simp
  then have s: "start_buffers ?m (start_init make_filter ?m ?s0) = Returns () hello_world"
    unfolding hello_world_def by (rule returned_start)
  have d: "is_done (snd (deliver copy_filter no_source [3, 5, 0, 100] hello_world))" by code_simp
  have b: "concat (aob_view (buf ?s0)) = ''hello world''" by code_simp
  from buffers_session [OF m(1,2) s, of copy_filter no_source "[3, 5, 0, 100]"] m b d
  show ?thesis by simp
qed

end
